theory Spec2Isabelle
  imports Main "HOL-Library.Word" "HOL-Library.AList"
begin

unbundle bit_operations_syntax

section \<open>Types of package textencoding\<close>

text \<open>
  A Go \<^verbatim>\<open>byte\<close> is an 8-bit word. A \<^verbatim>\<open>rune\<close> is Go's \<^verbatim>\<open>int32\<close>; no arithmetic
  of this file can overflow it, so it is an \<^typ>\<open>int\<close>. \<^verbatim>\<open>CharCode\<close> is declared
  outside \<^verbatim>\<open>simple.go\<close>; the file compares it with \<^verbatim>\<open>0xff\<close> and converts it with
  \<^verbatim>\<open>byte(code)\<close>, so it is an unsigned integer wider than a byte: a \<^typ>\<open>nat\<close>, and
  the conversion keeps the low eight bits. A Go map is an association list with
  distinct keys, in the order in which \<^verbatim>\<open>range\<close> visits it; \<^verbatim>\<open>m[k]\<close> is
  \<^const>\<open>map_of\<close> and \<^verbatim>\<open>m[k] = v\<close> is \<^const>\<open>AList.update\<close>.
\<close>

type_synonym byte = "8 word"
type_synonym rune = int
type_synonym CharCode = nat
type_synonym GlyphName = string

definition byte_of_CharCode :: "CharCode \<Rightarrow> byte" where
  "byte_of_CharCode code = of_nat code"

definition CharCode_of_byte :: "byte \<Rightarrow> CharCode" where
  "CharCode_of_byte b = unat b"

section \<open>The functions of unicode/utf8 that the file calls\<close>

datatype go_panic = IndexOutOfRange

definition RuneError :: rune where
  "RuneError = 0xFFFD"

definition ValidRune :: "rune \<Rightarrow> bool" where
  "ValidRune r = ((0 \<le> r \<and> r < 0xD800) \<or> (0xDFFF < r \<and> r \<le> 0x10FFFF))"

definition RuneLen :: "rune \<Rightarrow> int" where
  "RuneLen r =
     (if r < 0 then - 1
      else if r \<le> 0x7F then 1
      else if r \<le> 0x7FF then 2
      else if 0xD800 \<le> r \<and> r \<le> 0xDFFF then - 1
      else if r \<le> 0xFFFF then 3
      else if r \<le> 0x10FFFF then 4
      else - 1)"

text \<open>
  The bytes \<^verbatim>\<open>utf8.EncodeRune\<close> stores: the encoding of the rune, and the encoding of
  \<^verbatim>\<open>RuneError\<close> for a value that is no Unicode scalar value.
\<close>

definition encodeRuneBytes :: "rune \<Rightarrow> byte list" where
  "encodeRuneBytes r =
     (if 0 \<le> r \<and> r \<le> 0x7F then [word_of_int r]
      else if 0 \<le> r \<and> r \<le> 0x7FF then
        [0xC0 OR word_of_int (drop_bit 6 r), 0x80 OR (word_of_int r AND 0x3F)]
      else if (0 \<le> r \<and> r < 0xD800) \<or> (0xDFFF < r \<and> r \<le> 0xFFFF) then
        [0xE0 OR word_of_int (drop_bit 12 r),
         0x80 OR (word_of_int (drop_bit 6 r) AND 0x3F),
         0x80 OR (word_of_int r AND 0x3F)]
      else if 0xFFFF < r \<and> r \<le> 0x10FFFF then
        [0xF0 OR word_of_int (drop_bit 18 r),
         0x80 OR (word_of_int (drop_bit 12 r) AND 0x3F),
         0x80 OR (word_of_int (drop_bit 6 r) AND 0x3F),
         0x80 OR (word_of_int r AND 0x3F)]
      else [0xEF, 0xBF, 0xBD])"

text \<open>
  \<^verbatim>\<open>utf8.EncodeRune(p, r)\<close> stores the bytes at the start of \<^verbatim>\<open>p\<close> and returns their
  number; it panics with an index out of range when \<^verbatim>\<open>p\<close> is shorter. The result is
  the slice as the call leaves it, and the count.
\<close>

definition EncodeRune :: "byte list \<Rightarrow> rune \<Rightarrow> go_panic + (byte list \<times> nat)" where
  "EncodeRune p r =
     (let bs = encodeRuneBytes r; n = length bs
      in if length p < n then Inl IndexOutOfRange else Inr (bs @ drop n p, n))"

section \<open>The decoding transformer\<close>

datatype transform_error = ErrShortDst | ErrShortSrc

text \<open>
  What a \<^verbatim>\<open>Transform\<close> call returns: the bytes \<^verbatim>\<open>dst[:nDst]\<close> as the call leaves them,
  \<^verbatim>\<open>nDst\<close>, \<^verbatim>\<open>nSrc\<close> and the error (\<^verbatim>\<open>nil\<close> is \<^const>\<open>None\<close>).
\<close>

type_synonym transform_result = "byte list \<times> nat \<times> nat \<times> transform_error option"

text \<open>
  The loop of \<^verbatim>\<open>simpleDecoder.Transform\<close>. Its state is the slices \<^verbatim>\<open>dst\<close> and
  \<^verbatim>\<open>src\<close> and the counters; \<open>out\<close> collects the bytes stored so far.
  \<^verbatim>\<open>MissingCodeRune\<close> is declared outside \<^verbatim>\<open>simple.go\<close> and is the parameter \<open>mcr\<close>.
\<close>

fun simpleDecoder_loop ::
  "rune \<Rightarrow> (byte \<times> rune) list \<Rightarrow> byte list \<Rightarrow> byte list \<Rightarrow> byte list \<Rightarrow> nat \<Rightarrow> nat
     \<Rightarrow> go_panic + transform_result" where
  "simpleDecoder_loop mcr m dst [] out nDst nSrc = Inr (out, nDst, nSrc, None)"
| "simpleDecoder_loop mcr m dst (b # src) out nDst nSrc =
     (let r = (case map_of m b of Some r \<Rightarrow> r | None \<Rightarrow> mcr)
      in if RuneLen r > int (length dst) then Inr (out, nDst, nSrc, Some ErrShortDst)
         else (case EncodeRune dst r of
                 Inl p \<Rightarrow> Inl p
               | Inr (dst', n) \<Rightarrow>
                   simpleDecoder_loop mcr m (drop n dst') src (out @ take n dst')
                     (nDst + n) (nSrc + 1)))"

definition simpleDecoder_Transform ::
  "rune \<Rightarrow> (byte \<times> rune) list \<Rightarrow> byte list \<Rightarrow> byte list \<Rightarrow> bool
     \<Rightarrow> go_panic + transform_result" where
  "simpleDecoder_Transform mcr m dst src atEOF = simpleDecoder_loop mcr m dst src [] 0 0"

section \<open>The table of MacRomanEncoding\<close>

definition MacRomanEncoding :: "(byte \<times> rune) list" where
  "MacRomanEncoding = [
   (0x01, 0x0001), (0x02, 0x0002), (0x03, 0x0003), (0x04, 0x0004), (0x05, 0x0005),
   (0x06, 0x0006), (0x07, 0x0007), (0x08, 0x0008), (0x09, 0x0009), (0x0a, 0x000a),
   (0x0b, 0x000b), (0x0c, 0x000c), (0x0d, 0x000d), (0x0e, 0x000e), (0x0f, 0x000f),
   (0x10, 0x0010), (0x11, 0x0011), (0x12, 0x0012), (0x13, 0x0013), (0x14, 0x0014),
   (0x15, 0x0015), (0x16, 0x0016), (0x17, 0x0017), (0x18, 0x0018), (0x19, 0x0019),
   (0x1a, 0x001a), (0x1b, 0x001b), (0x1c, 0x001c), (0x1d, 0x001d), (0x1e, 0x001e),
   (0x1f, 0x001f), (0x20, 0x0020), (0x21, 0x0021), (0x22, 0x0022), (0x23, 0x0023),
   (0x24, 0x0024), (0x25, 0x0025), (0x26, 0x0026), (0x27, 0x0027), (0x28, 0x0028),
   (0x29, 0x0029), (0x2a, 0x002a), (0x2b, 0x002b), (0x2c, 0x002c), (0x2d, 0x002d),
   (0x2e, 0x002e), (0x2f, 0x002f), (0x30, 0x0030), (0x31, 0x0031), (0x32, 0x0032),
   (0x33, 0x0033), (0x34, 0x0034), (0x35, 0x0035), (0x36, 0x0036), (0x37, 0x0037),
   (0x38, 0x0038), (0x39, 0x0039), (0x3a, 0x003a), (0x3b, 0x003b), (0x3c, 0x003c),
   (0x3d, 0x003d), (0x3e, 0x003e), (0x3f, 0x003f), (0x40, 0x0040), (0x41, 0x0041),
   (0x42, 0x0042), (0x43, 0x0043), (0x44, 0x0044), (0x45, 0x0045), (0x46, 0x0046),
   (0x47, 0x0047), (0x48, 0x0048), (0x49, 0x0049), (0x4a, 0x004a), (0x4b, 0x004b),
   (0x4c, 0x004c), (0x4d, 0x004d), (0x4e, 0x004e), (0x4f, 0x004f), (0x50, 0x0050),
   (0x51, 0x0051), (0x52, 0x0052), (0x53, 0x0053), (0x54, 0x0054), (0x55, 0x0055),
   (0x56, 0x0056), (0x57, 0x0057), (0x58, 0x0058), (0x59, 0x0059), (0x5a, 0x005a),
   (0x5b, 0x005b), (0x5c, 0x005c), (0x5d, 0x005d), (0x5e, 0x005e), (0x5f, 0x005f),
   (0x60, 0x0060), (0x61, 0x0061), (0x62, 0x0062), (0x63, 0x0063), (0x64, 0x0064),
   (0x65, 0x0065), (0x66, 0x0066), (0x67, 0x0067), (0x68, 0x0068), (0x69, 0x0069),
   (0x6a, 0x006a), (0x6b, 0x006b), (0x6c, 0x006c), (0x6d, 0x006d), (0x6e, 0x006e),
   (0x6f, 0x006f), (0x70, 0x0070), (0x71, 0x0071), (0x72, 0x0072), (0x73, 0x0073),
   (0x74, 0x0074), (0x75, 0x0075), (0x76, 0x0076), (0x77, 0x0077), (0x78, 0x0078),
   (0x79, 0x0079), (0x7a, 0x007a), (0x7b, 0x007b), (0x7c, 0x007c), (0x7d, 0x007d),
   (0x7e, 0x007e), (0x7f, 0x007f), (0x80, 0x00c4), (0x81, 0x00c5), (0x82, 0x00c7),
   (0x83, 0x00c9), (0x84, 0x00d1), (0x85, 0x00d6), (0x86, 0x00dc), (0x87, 0x00e1),
   (0x88, 0x00e0), (0x89, 0x00e2), (0x8a, 0x00e4), (0x8b, 0x00e3), (0x8c, 0x00e5),
   (0x8d, 0x00e7), (0x8e, 0x00e9), (0x8f, 0x00e8), (0x90, 0x00ea), (0x91, 0x00eb),
   (0x92, 0x00ed), (0x93, 0x00ec), (0x94, 0x00ee), (0x95, 0x00ef), (0x96, 0x00f1),
   (0x97, 0x00f3), (0x98, 0x00f2), (0x99, 0x00f4), (0x9a, 0x00f6), (0x9b, 0x00f5),
   (0x9c, 0x00fa), (0x9d, 0x00f9), (0x9e, 0x00fb), (0x9f, 0x00fc), (0xa0, 0x2020),
   (0xa1, 0x00b0), (0xa2, 0x00a2), (0xa3, 0x00a3), (0xa4, 0x00a7), (0xa5, 0x2022),
   (0xa6, 0x00b6), (0xa7, 0x00df), (0xa8, 0x00ae), (0xa9, 0x00a9), (0xaa, 0x2122),
   (0xab, 0x00b4), (0xac, 0x00a8), (0xad, 0x2260), (0xae, 0x00c6), (0xaf, 0x00d8),
   (0xb0, 0x221e), (0xb1, 0x00b1), (0xb2, 0x2264), (0xb3, 0x2265), (0xb4, 0x00a5),
   (0xb5, 0x00b5), (0xb6, 0x2202), (0xb7, 0x2211), (0xb8, 0x220f), (0xb9, 0x03c0),
   (0xba, 0x222b), (0xbb, 0x00aa), (0xbc, 0x00ba), (0xbd, 0x03a9), (0xbe, 0x00e6),
   (0xbf, 0x00f8), (0xc0, 0x00bf), (0xc1, 0x00a1), (0xc2, 0x00ac), (0xc3, 0x221a),
   (0xc4, 0x0192), (0xc5, 0x2248), (0xc6, 0x2206), (0xc7, 0x00ab), (0xc8, 0x00bb),
   (0xc9, 0x2026), (0xca, 0x00a0), (0xcb, 0x00c0), (0xcc, 0x00c3), (0xcd, 0x00d5),
   (0xce, 0x0152), (0xcf, 0x0153), (0xd0, 0x2013), (0xd1, 0x2014), (0xd2, 0x201c),
   (0xd3, 0x201d), (0xd4, 0x2018), (0xd5, 0x2019), (0xd6, 0x00f7), (0xd7, 0x25ca),
   (0xd8, 0x00ff), (0xd9, 0x0178), (0xda, 0x2044), (0xdb, 0x20ac), (0xdc, 0x2039),
   (0xdd, 0x203a), (0xde, 0xfb01), (0xdf, 0xfb02), (0xe0, 0x2021), (0xe1, 0x00b7),
   (0xe2, 0x201a), (0xe3, 0x201e), (0xe4, 0x2030), (0xe5, 0x00c2), (0xe6, 0x00ca),
   (0xe7, 0x00c1), (0xe8, 0x00cb), (0xe9, 0x00c8), (0xea, 0x00cd), (0xeb, 0x00ce),
   (0xec, 0x00cf), (0xed, 0x00cc), (0xee, 0x00d3), (0xef, 0x00d4), (0xf0, 0xf8ff),
   (0xf1, 0x00d2), (0xf2, 0x00da), (0xf3, 0x00db), (0xf4, 0x00d9), (0xf5, 0x0131),
   (0xf6, 0x02c6), (0xf7, 0x02dc), (0xf8, 0x00af), (0xf9, 0x02d8), (0xfa, 0x02d9),
   (0xfb, 0x02da), (0xfc, 0x00b8), (0xfd, 0x02dd), (0xfe, 0x02db), (0xff, 0x02c7)
  ]"

section \<open>Decoding one rune: utf8.FullRune and utf8.DecodeRune\<close>

text \<open>
  The table \<^verbatim>\<open>first\<close> of unicode/utf8 gives, for a leading byte, the length of
  the sequence in its low three bits and the index of the accepted range of the second
  byte in its high four bits; \<^verbatim>\<open>0xF0\<close> marks ASCII and \<^verbatim>\<open>0xF1\<close> an invalid
  leading byte.
\<close>

definition utf8_first :: "byte \<Rightarrow> byte" where
  "utf8_first b =
     (if b < 0x80 then 0xF0
      else if b < 0xC2 then 0xF1
      else if b < 0xE0 then 0x02
      else if b = 0xE0 then 0x13
      else if b < 0xED then 0x03
      else if b = 0xED then 0x23
      else if b < 0xF0 then 0x03
      else if b = 0xF0 then 0x34
      else if b < 0xF4 then 0x04
      else if b = 0xF4 then 0x44
      else 0xF1)"

definition acceptRanges :: "(byte \<times> byte) list" where
  "acceptRanges =
     [(0x80, 0xBF), (0xA0, 0xBF), (0x80, 0x9F), (0x90, 0xBF), (0x80, 0x8F)] @ replicate 11 (0, 0)"

definition FullRune :: "byte list \<Rightarrow> bool" where
  "FullRune p =
     (let n = length p
      in if n = 0 then False
         else let x = utf8_first (p ! 0)
              in if unat (x AND 7) \<le> n then True
                 else let (lo, hi) = acceptRanges ! unat (drop_bit 4 x)
                      in if 1 < n \<and> (p ! 1 < lo \<or> hi < p ! 1) then True
                         else if 2 < n \<and> (p ! 2 < 0x80 \<or> 0xBF < p ! 2) then True
                         else False)"

definition DecodeRune :: "byte list \<Rightarrow> rune \<times> nat" where
  "DecodeRune p =
     (let n = length p
      in if n < 1 then (RuneError, 0)
         else let p0 = p ! 0; x = utf8_first p0
              in if 0xF0 \<le> x then ((if bit x 0 then RuneError else uint p0), 1)
                 else let sz = unat (x AND 7); (lo, hi) = acceptRanges ! unat (drop_bit 4 x)
                      in if n < sz then (RuneError, 1)
                         else let b1 = p ! 1
                              in if b1 < lo \<or> hi < b1 then (RuneError, 1)
                                 else if sz \<le> 2 then
                                   (push_bit 6 (uint (p0 AND 0x1F)) OR uint (b1 AND 0x3F), 2)
                                 else let b2 = p ! 2
                                      in if b2 < 0x80 \<or> 0xBF < b2 then (RuneError, 1)
                                         else if sz \<le> 3 then
                                           (push_bit 12 (uint (p0 AND 0x0F))
                                              OR push_bit 6 (uint (b1 AND 0x3F))
                                              OR uint (b2 AND 0x3F), 3)
                                         else let b3 = p ! 3
                                              in if b3 < 0x80 \<or> 0xBF < b3 then (RuneError, 1)
                                                 else
                                                   (push_bit 18 (uint (p0 AND 0x07))
                                                      OR push_bit 12 (uint (b1 AND 0x3F))
                                                      OR push_bit 6 (uint (b2 AND 0x3F))
                                                      OR uint (b3 AND 0x3F), 4))"

section \<open>The encoding transformer\<close>

text \<open>
  The loop of \<^verbatim>\<open>simpleEncoder.Transform\<close>, with the state of the decoding loop and the
  flag \<^verbatim>\<open>atEOF\<close>. A rune absent from the map is looked up as \<^verbatim>\<open>MissingCodeRune\<close>,
  and the zero byte is stored when that is absent too. The store \<^verbatim>\<open>dst[0] = b\<close> follows
  the test \<^verbatim>\<open>len(dst) == 0\<close>, so it cannot panic.
\<close>

function simpleEncoder_loop ::
  "rune \<Rightarrow> (rune \<times> byte) list \<Rightarrow> byte list \<Rightarrow> byte list \<Rightarrow> bool \<Rightarrow> byte list \<Rightarrow> nat \<Rightarrow> nat
     \<Rightarrow> transform_result" where
  "simpleEncoder_loop mcr m dst src atEOF out nDst nSrc =
     (if src = [] then (out, nDst, nSrc, None)
      else if \<not> FullRune src \<and> \<not> atEOF then (out, nDst, nSrc, Some ErrShortSrc)
      else if dst = [] then (out, nDst, nSrc, Some ErrShortDst)
      else (case DecodeRune src of
              (r0, n) \<Rightarrow>
                let r = (if r0 = RuneError then mcr else r0);
                    b = (case map_of m r of
                           Some b \<Rightarrow> b
                         | None \<Rightarrow> (case map_of m mcr of Some b \<Rightarrow> b | None \<Rightarrow> 0));
                    dst' = dst[0 := b]
                in simpleEncoder_loop mcr m (drop 1 dst') (drop n src) atEOF (out @ take 1 dst')
                     (nDst + 1) (nSrc + n)))"
  by pat_completeness auto
termination
proof (relation "measure (\<lambda>(mcr, m, dst, src, atEOF, out, nDst, nSrc). length src)", goal_cases)
  case 1
  show ?case by simp
next
  case (2 mcr m dst src atEOF out nDst nSrc r0 n r b dst')
  have len: "Suc 0 \<le> length src"
    using \<open>src \<noteq> []\<close> by (cases src) simp_all
  have "utf8_first (src ! 0) \<in> {0xF0, 0xF1, 0x02, 0x13, 0x03, 0x23, 0x34, 0x04, 0x44}"
    by (simp add: utf8_first_def)
  then have "1 \<le> snd (DecodeRune src)"
    using len by (auto simp add: DecodeRune_def Let_def acceptRanges_def)
  then have "1 \<le> n"
    using \<open>(r0, n) = DecodeRune src\<close> by (metis snd_conv)
  then show ?case
    using len by simp
qed

declare simpleEncoder_loop.simps [simp del]

definition simpleEncoder_Transform ::
  "rune \<Rightarrow> (rune \<times> byte) list \<Rightarrow> byte list \<Rightarrow> byte list \<Rightarrow> bool \<Rightarrow> transform_result" where
  "simpleEncoder_Transform mcr m dst src atEOF = simpleEncoder_loop mcr m dst src atEOF [] 0 0"

text \<open>The byte the loop stores for a decoded rune \<open>r0\<close>.\<close>

definition encoded_byte :: "rune \<Rightarrow> (rune \<times> byte) list \<Rightarrow> rune \<Rightarrow> byte" where
  "encoded_byte mcr m r0 =
     (case map_of m (if r0 = RuneError then mcr else r0) of
        Some b \<Rightarrow> b
      | None \<Rightarrow> (case map_of m mcr of Some b \<Rightarrow> b | None \<Rightarrow> 0))"

section \<open>simpleEncoding and its constructors\<close>

record simpleEncoding =
  baseName :: string
  encode :: "(rune \<times> byte) list"
  decode :: "(byte \<times> rune) list"

text \<open>
  \<^verbatim>\<open>newSimpleEncoderFromMap\<close> keeps the map as \<^verbatim>\<open>decode\<close> and fills \<^verbatim>\<open>encode\<close> by
  ranging over it: a rune that several codes share keeps the code visited last.
\<close>

definition newSimpleEncoderFromMap :: "string \<Rightarrow> (byte \<times> rune) list \<Rightarrow> simpleEncoding" where
  "newSimpleEncoderFromMap name encoding =
     \<lparr>baseName = name,
      encode = fold (\<lambda>(b, r) e. AList.update r b e) encoding [],
      decode = encoding\<rparr>"

definition NewDecoder :: "simpleEncoding \<Rightarrow> (byte \<times> rune) list" where
  "NewDecoder enc = decode enc"

definition NewEncoder :: "simpleEncoding \<Rightarrow> (rune \<times> byte) list" where
  "NewEncoder enc = encode enc"

definition BaseName :: "simpleEncoding \<Rightarrow> string" where
  "BaseName enc = baseName enc"

text \<open>
  \<^verbatim>\<open>Charcodes\<close> collects the keys of \<^verbatim>\<open>decode\<close> and sorts them with
  \<^verbatim>\<open>sort.Slice\<close> under \<^verbatim>\<open><\<close>; on numbers every sorting algorithm returns the same
  list, here that of \<^const>\<open>sort\<close>.
\<close>

definition Charcodes :: "simpleEncoding \<Rightarrow> CharCode list" where
  "Charcodes enc = sort (map (\<lambda>(b, r). CharCode_of_byte b) (decode enc))"

definition RuneToCharcode :: "simpleEncoding \<Rightarrow> rune \<Rightarrow> CharCode \<times> bool" where
  "RuneToCharcode enc r =
     (case map_of (encode enc) r of
        Some b \<Rightarrow> (CharCode_of_byte b, True)
      | None \<Rightarrow> (CharCode_of_byte 0, False))"

definition CharcodeToRune :: "rune \<Rightarrow> simpleEncoding \<Rightarrow> CharCode \<Rightarrow> rune \<times> bool" where
  "CharcodeToRune mcr enc code =
     (if code > 0xff then (mcr, False)
      else let b = byte_of_CharCode code
           in (case map_of (decode enc) b of Some r \<Rightarrow> (r, True) | None \<Rightarrow> (0, False)))"

text \<open>
  Modelled from the spec: \<^verbatim>\<open>ApplyDifferences\<close> is declared outside \<^verbatim>\<open>simple.go\<close>. The spec
  (4.3) has it build a new encoding whose \<^verbatim>\<open>decode\<close> is that of the base with every
  code of the differences replaced by the rune its glyph name resolves to, an unresolved
  name being skipped, whose \<^verbatim>\<open>encode\<close> is rebuilt by inversion and whose base name is
  that of the base. \<^verbatim>\<open>GlyphToRune\<close>, the glyph table, is the parameter \<open>G\<close>.
\<close>

definition ApplyDifferences ::
  "(GlyphName \<Rightarrow> rune option) \<Rightarrow> simpleEncoding \<Rightarrow> (CharCode \<times> GlyphName) list
     \<Rightarrow> simpleEncoding" where
  "ApplyDifferences G base differences =
     newSimpleEncoderFromMap (baseName base)
       (fold (\<lambda>(code, glyph) d.
                case G glyph of
                  None \<Rightarrow> d
                | Some r \<Rightarrow> AList.update (byte_of_CharCode code) r d)
          differences (decode base))"

datatype error = errors_New string

text \<open>
  \<^verbatim>\<open>NewCustomSimpleTextEncoder\<close>. The glyph table \<^verbatim>\<open>GlyphToRune\<close> and
  \<^verbatim>\<open>ApplyDifferences\<close> are declared outside \<^verbatim>\<open>simple.go\<close> and are the parameters
  \<open>G\<close> and \<open>AD\<close>; the log line has no effect on the result.
\<close>

definition NewCustomSimpleTextEncoder ::
  "(GlyphName \<Rightarrow> rune option)
     \<Rightarrow> (simpleEncoding \<Rightarrow> (CharCode \<times> GlyphName) list \<Rightarrow> simpleEncoding)
     \<Rightarrow> (CharCode \<times> GlyphName) list \<Rightarrow> (CharCode \<times> GlyphName) list
     \<Rightarrow> error + simpleEncoding" where
  "NewCustomSimpleTextEncoder G AD encoding differences =
     (if length encoding = 0 then Inl (errors_New ''empty custom encoding'')
      else let baseEncoding =
                 fold (\<lambda>(code, glyph) be.
                         case G glyph of
                           None \<Rightarrow> be
                         | Some r \<Rightarrow> AList.update (byte_of_CharCode code) r be)
                   encoding [];
               enc = newSimpleEncoderFromMap ''custom'' baseEncoding
           in Inr (if length differences \<noteq> 0 then AD enc differences else enc))"

section \<open>Serialisation\<close>

text \<open>
  Modelled from the spec: package \<^verbatim>\<open>core\<close> is outside \<^verbatim>\<open>simple.go\<close>. The spec (1, 4.7)
  takes it as an opaque builder with the primitives \<^verbatim>\<open>MakeName\<close>, \<^verbatim>\<open>MakeDict\<close> and
  \<^verbatim>\<open>MakeIndirectObject\<close>, so an object is the term the builder calls make; a dictionary
  keeps its entries in the order they were first set.
\<close>

datatype PdfObject =
    PdfObjectNull
  | PdfObjectInteger int
  | PdfObjectName string
  | PdfObjectArray "PdfObject list"
  | PdfObjectDictionary "(string \<times> PdfObject) list"
  | PdfIndirectObject PdfObject

definition MakeName :: "string \<Rightarrow> PdfObject" where
  "MakeName s = PdfObjectName s"

definition MakeDict :: "(string \<times> PdfObject) list" where
  "MakeDict = []"

definition dict_Set :: "(string \<times> PdfObject) list \<Rightarrow> string \<Rightarrow> PdfObject \<Rightarrow> (string \<times> PdfObject) list" where
  "dict_Set d k v = AList.update k v d"

definition MakeIndirectObject :: "(string \<times> PdfObject) list \<Rightarrow> PdfObject" where
  "MakeIndirectObject d = PdfIndirectObject (PdfObjectDictionary d)"

text \<open>
  \<^verbatim>\<open>ToPdfObject\<close>. The constant \<^verbatim>\<open>baseWinAnsi\<close> and the function
  \<^verbatim>\<open>toFontDifferences\<close> are declared outside \<^verbatim>\<open>simple.go\<close> and are parameters; the
  \<^verbatim>\<open>nil\<close> map passed to \<^verbatim>\<open>toFontDifferences\<close> is the empty list.
\<close>

definition ToPdfObject ::
  "string \<Rightarrow> ((CharCode \<times> GlyphName) list \<Rightarrow> PdfObject) \<Rightarrow> simpleEncoding \<Rightarrow> PdfObject" where
  "ToPdfObject baseWinAnsi toFontDifferences enc =
     (if baseName enc = ''MacRomanEncoding'' \<or> baseName enc = ''MacExpertEncoding''
         \<or> baseName enc = baseWinAnsi
      then MakeName (baseName enc)
      else let dict = MakeDict;
               dict = dict_Set dict ''Type'' (MakeName ''Encoding'');
               dict = dict_Set dict ''BaseEncoding'' (MakeName (baseName enc));
               dict = dict_Set dict ''Differences'' (toFontDifferences [])
           in MakeIndirectObject dict)"

section \<open>The caller's side of the transform protocol\<close>

text \<open>
  The spec (4.5, 4.6, 8) has a caller feed a buffer to a transformer in chunks, under the
  protocol of \<^verbatim>\<open>golang.org/x/text/transform\<close>: after a short destination the caller
  empties the destination and calls again with the source that was not consumed; after a
  short source, or when a chunk is used up, it appends the next chunk to the source that
  was not consumed; the last call has \<^verbatim>\<open>atEOF\<close> set. These two functions are that
  caller, written from the spec's words; the destination of every call is a fresh buffer
  of \<open>k\<close> bytes.

  \<open>resume_short_dst\<close> calls the transformer until it reports something other than a
  short destination. It returns the bytes written by all calls, the number of source
  bytes consumed by all calls, and the last error. A call that reports a short
  destination without consuming anything ends it, since the same call would be repeated.
\<close>

type_synonym transformer = "byte list \<Rightarrow> byte list \<Rightarrow> bool \<Rightarrow> go_panic + transform_result"

function resume_short_dst ::
  "transformer \<Rightarrow> nat \<Rightarrow> byte list \<Rightarrow> bool
     \<Rightarrow> go_panic + (byte list \<times> nat \<times> transform_error option)" where
  "resume_short_dst T k src atEOF =
     (case T (replicate k 0) src atEOF of
        Inl p \<Rightarrow> Inl p
      | Inr (out, nDst, nSrc, err) \<Rightarrow>
          if err = Some ErrShortDst \<and> 0 < nSrc \<and> nSrc \<le> length src
          then (case resume_short_dst T k (drop nSrc src) atEOF of
                  Inl p \<Rightarrow> Inl p
                | Inr (out', nSrc', err') \<Rightarrow> Inr (out @ out', nSrc + nSrc', err'))
          else Inr (out, nSrc, err))"
  by pat_completeness auto
termination
  by (relation "measure (\<lambda>(T, k, src, atEOF). length src)") auto

declare resume_short_dst.simps [simp del]

text \<open>
  \<open>feed_chunks\<close> feeds the chunks in turn, \<open>pending\<close> being the source not yet
  consumed, and ends with a call at \<^verbatim>\<open>atEOF\<close>.
\<close>

fun feed_chunks ::
  "transformer \<Rightarrow> nat \<Rightarrow> byte list \<Rightarrow> byte list list
     \<Rightarrow> go_panic + (byte list \<times> nat \<times> transform_error option)" where
  "feed_chunks T k pending [] = resume_short_dst T k pending True"
| "feed_chunks T k pending (c # cs) =
     (case resume_short_dst T k (pending @ c) False of
        Inl p \<Rightarrow> Inl p
      | Inr (out, nSrc, err) \<Rightarrow>
          if err = Some ErrShortDst then Inr (out, nSrc, err)
          else (case feed_chunks T k (drop nSrc (pending @ c)) cs of
                  Inl p \<Rightarrow> Inl p
                | Inr (out', nSrc', err') \<Rightarrow> Inr (out @ out', nSrc + nSrc', err')))"

text \<open>The two transformers of an encoding, as transformers of the protocol.\<close>

definition decoder_of :: "rune \<Rightarrow> (byte \<times> rune) list \<Rightarrow> transformer" where
  "decoder_of mcr m = simpleDecoder_Transform mcr m"

definition encoder_of :: "rune \<Rightarrow> (rune \<times> byte) list \<Rightarrow> transformer" where
  "encoder_of mcr m = (\<lambda>dst src atEOF. Inr (simpleEncoder_Transform mcr m dst src atEOF))"

text \<open>The rune a byte decodes to, and the text of a buffer: the runes of its bytes in UTF-8.\<close>

definition decoded_rune :: "rune \<Rightarrow> (byte \<times> rune) list \<Rightarrow> byte \<Rightarrow> rune" where
  "decoded_rune mcr m b = (case map_of m b of Some r \<Rightarrow> r | None \<Rightarrow> mcr)"

definition decoded_text :: "rune \<Rightarrow> (byte \<times> rune) list \<Rightarrow> byte list \<Rightarrow> byte list" where
  "decoded_text mcr m src = concat (map (\<lambda>b. encodeRuneBytes (decoded_rune mcr m b)) src)"

section \<open>Conversions between codes and bytes\<close>

lemma byte_of_CharCode_of_byte: "byte_of_CharCode (CharCode_of_byte b) = b"
  by (simp add: byte_of_CharCode_def CharCode_of_byte_def)

lemma CharCode_of_byte_le: "CharCode_of_byte b \<le> 0xff"
proof -
  have "unat b < 2 ^ LENGTH(8)" by (rule unsigned_less)
  then show ?thesis by (simp add: CharCode_of_byte_def)
qed

section \<open>Looking up codes and runes\<close>

text \<open>
  Claim C1, as amended. \<^verbatim>\<open>CharcodeToRune\<close> reports \<open>ok = false\<close> for every code that is
  greater than 255 or absent from the decode map. The rune it returns with it is
  \<^verbatim>\<open>MissingCodeRune\<close> for a code greater than 255, and the zero rune for a code of at
  most 255 that is absent from the map.
\<close>

theorem CharcodeToRune_not_found:
  "(code > 0xff \<longrightarrow> CharcodeToRune mcr enc code = (mcr, False)) \<and>
   (code \<le> 0xff \<and> byte_of_CharCode code \<notin> fst ` set (decode enc)
      \<longrightarrow> CharcodeToRune mcr enc code = (0, False))"
proof -
  have "byte_of_CharCode code \<notin> fst ` set (decode enc)
     \<Longrightarrow> map_of (decode enc) (byte_of_CharCode code) = None"
    by (simp add: map_of_eq_None_iff)
  then show ?thesis
    by (auto simp: CharcodeToRune_def Let_def)
qed

theorem CharcodeToRune_not_found_witness:
  "(0x100 :: nat) > 0xff
   \<and> CharcodeToRune 0xFFFD (newSimpleEncoderFromMap ''custom'' [(0x41, 0x41)]) 0x100
       = (0xFFFD, False)
   \<and> (0x42 :: nat) \<le> 0xff
   \<and> byte_of_CharCode 0x42 \<notin> fst ` set (decode (newSimpleEncoderFromMap ''custom'' [(0x41, 0x41)]))
   \<and> CharcodeToRune 0xFFFD (newSimpleEncoderFromMap ''custom'' [(0x41, 0x41)]) 0x42 = (0, False)"
  using CharcodeToRune_not_found [of "0x100" "0xFFFD" "newSimpleEncoderFromMap ''custom'' [(0x41, 0x41)]"]
    CharcodeToRune_not_found [of "0x42" "0xFFFD" "newSimpleEncoderFromMap ''custom'' [(0x41, 0x41)]"]
  by (simp add: newSimpleEncoderFromMap_def byte_of_CharCode_def)

text \<open>
  With \<^verbatim>\<open>MissingCodeRune\<close> the replacement character U+FFFD, the code 256 is answered with
  that rune and not with the zero rune, under the table of MacRomanEncoding as under any
  other.
\<close>

theorem CharcodeToRune_wide_code_counterexample:
  "(0x100 :: nat) > 0xff
   \<and> CharcodeToRune 0xFFFD (newSimpleEncoderFromMap ''MacRomanEncoding'' MacRomanEncoding) 0x100
       = (0xFFFD, False)
   \<and> CharcodeToRune 0xFFFD (newSimpleEncoderFromMap ''MacRomanEncoding'' MacRomanEncoding) 0x100
       \<noteq> (0, False)"
  by (simp add: CharcodeToRune_def)

lemma map_of_fold_invert:
  "map_of (fold (\<lambda>(b, r) e. AList.update r b e) xs e0) r = Some b
     \<Longrightarrow> (b, r) \<in> set xs \<or> map_of e0 r = Some b"
proof (induction xs arbitrary: e0)
  case Nil
  then show ?case by simp
next
  case (Cons x xs)
  obtain b' r' where x: "x = (b', r')" by (cases x)
  from Cons.prems have "map_of (fold (\<lambda>(b, r) e. AList.update r b e) xs (AList.update r' b' e0)) r = Some b"
    by (simp add: x)
  from Cons.IH [OF this] show ?case
    by (auto simp: x update_conv' split: if_splits)
qed

text \<open>
  Claim C5. For an encoding built by \<^verbatim>\<open>newSimpleEncoderFromMap\<close> from a map (an
  association list with distinct keys, in whatever order \<^verbatim>\<open>range\<close> visits it), a rune
  that \<^verbatim>\<open>RuneToCharcode\<close> maps to a code \<open>c\<close> with \<open>ok = true\<close> is the rune that
  \<^verbatim>\<open>CharcodeToRune\<close> returns for \<open>c\<close>, with \<open>ok = true\<close>.
\<close>

theorem RuneToCharcode_roundtrip:
  assumes "distinct (map fst encoding)"
    and "RuneToCharcode (newSimpleEncoderFromMap name encoding) r = (c, True)"
  shows "CharcodeToRune mcr (newSimpleEncoderFromMap name encoding) c = (r, True)"
proof -
  from assms(2) obtain b where b: "map_of (fold (\<lambda>(b, r) e. AList.update r b e) encoding []) r = Some b"
    and c: "c = CharCode_of_byte b"
    by (auto simp: RuneToCharcode_def newSimpleEncoderFromMap_def split: option.splits)
  from map_of_fold_invert [OF b] have "(b, r) \<in> set encoding" by simp
  with assms(1) have "map_of encoding b = Some r" by simp
  then show ?thesis
    using CharCode_of_byte_le [of b]
    by (simp add: CharcodeToRune_def c byte_of_CharCode_of_byte newSimpleEncoderFromMap_def)
qed

theorem RuneToCharcode_roundtrip_witness:
  "distinct (map fst [(0x80 :: byte, 0xC4 :: rune), (0x81, 0xC5)])
   \<and> RuneToCharcode (newSimpleEncoderFromMap ''custom'' [(0x80, 0xC4), (0x81, 0xC5)]) 0xC5 = (0x81, True)
   \<and> CharcodeToRune 0xFFFD (newSimpleEncoderFromMap ''custom'' [(0x80, 0xC4), (0x81, 0xC5)]) 0x81 = (0xC5, True)"
proof -
  have d: "distinct (map fst [(0x80 :: byte, 0xC4 :: rune), (0x81, 0xC5)])"
    by simp
  have r: "RuneToCharcode (newSimpleEncoderFromMap ''custom'' [(0x80, 0xC4), (0x81, 0xC5)]) 0xC5 = (0x81, True)"
    by (simp add: RuneToCharcode_def newSimpleEncoderFromMap_def CharCode_of_byte_def)
  show ?thesis
    using d r RuneToCharcode_roundtrip [OF d r, of "0xFFFD"] by simp
qed


text \<open>
  Claim C9. For every encoding whose decode map is a map (its keys are distinct),
  \<^verbatim>\<open>Charcodes\<close> returns the keys of the decode map in strictly ascending order,
  without duplicates: the sorted list of the key set.
\<close>

theorem Charcodes_sorted:
  assumes "distinct (map fst (decode enc))"
  shows "Charcodes enc = sorted_list_of_set (CharCode_of_byte ` fst ` set (decode enc))
         \<and> sorted_wrt (<) (Charcodes enc) \<and> distinct (Charcodes enc)"
proof -
  let ?ks = "map (\<lambda>(b, r). CharCode_of_byte b) (decode enc)"
  have ks: "?ks = map CharCode_of_byte (map fst (decode enc))"
    by (simp add: case_prod_unfold comp_def)
  have "inj CharCode_of_byte"
    by (rule inj_on_inverseI [where g = byte_of_CharCode]) (rule byte_of_CharCode_of_byte)
  then have d: "distinct ?ks"
    unfolding ks using assms by (simp add: distinct_map inj_on_def)
  have s: "set ?ks = CharCode_of_byte ` fst ` set (decode enc)"
    unfolding ks by (simp only: set_map)
  have "sorted_list_of_set (set ?ks) = sort ?ks"
    using d by (simp add: sorted_list_of_set_sort_remdups distinct_remdups_id del: set_map)
  then have 1: "Charcodes enc = sorted_list_of_set (CharCode_of_byte ` fst ` set (decode enc))"
    unfolding s by (simp add: Charcodes_def)
  have 2: "distinct (Charcodes enc)"
    using d by (simp add: Charcodes_def)
  have "sorted (Charcodes enc)"
    by (simp add: Charcodes_def)
  with 2 have 3: "sorted_wrt (<) (Charcodes enc)"
    by (simp add: strict_sorted_iff)
  from 1 2 3 show ?thesis by simp
qed

theorem Charcodes_sorted_witness:
  "distinct (map fst (decode (newSimpleEncoderFromMap ''custom'' [(0x81, 0xC5), (0x20, 0x20), (0x80, 0xC4)])))
   \<and> Charcodes (newSimpleEncoderFromMap ''custom'' [(0x81, 0xC5), (0x20, 0x20), (0x80, 0xC4)])
       = [0x20, 0x80, 0x81]
   \<and> sorted_wrt (<) (Charcodes (newSimpleEncoderFromMap ''custom'' [(0x81, 0xC5), (0x20, 0x20), (0x80, 0xC4)]))
   \<and> Charcodes (newSimpleEncoderFromMap ''custom'' [(0x81, 0xC5), (0x20, 0x20), (0x80, 0xC4)])
       = sorted_list_of_set (CharCode_of_byte ` fst `
           set (decode (newSimpleEncoderFromMap ''custom'' [(0x81, 0xC5), (0x20, 0x20), (0x80, 0xC4)])))"
proof -
  let ?E = "newSimpleEncoderFromMap ''custom'' [(0x81, 0xC5), (0x20, 0x20), (0x80, 0xC4)]"
  have d: "distinct (map fst (decode ?E))"
    by (simp add: newSimpleEncoderFromMap_def)
  have c: "Charcodes ?E = [0x20, 0x80, 0x81]"
    by (simp add: Charcodes_def newSimpleEncoderFromMap_def CharCode_of_byte_def)
  from d c Charcodes_sorted [OF d] show ?thesis
    by blast
qed

section \<open>Building a custom encoding\<close>

lemma map_of_fold_glyphs:
  "map_of (fold (\<lambda>(code, glyph) d.
                   case G glyph of
                     None \<Rightarrow> d
                   | Some r \<Rightarrow> AList.update (byte_of_CharCode code) r d) xs d0) b = Some r
     \<Longrightarrow> (\<exists>(code, glyph) \<in> set xs. byte_of_CharCode code = b \<and> G glyph = Some r)
         \<or> map_of d0 b = Some r"
proof (induction xs arbitrary: d0)
  case Nil
  then show ?case by simp
next
  case (Cons x xs)
  obtain code glyph where x: "x = (code, glyph)" by (cases x)
  show ?case
  proof (cases "G glyph")
    case None
    with Cons.prems have "map_of (fold (\<lambda>(code, glyph) d.
                   case G glyph of
                     None \<Rightarrow> d
                   | Some r \<Rightarrow> AList.update (byte_of_CharCode code) r d) xs d0) b = Some r"
      by (simp add: x)
    from Cons.IH [OF this] show ?thesis by auto
  next
    case (Some r')
    with Cons.prems have "map_of (fold (\<lambda>(code, glyph) d.
                   case G glyph of
                     None \<Rightarrow> d
                   | Some r \<Rightarrow> AList.update (byte_of_CharCode code) r d) xs
                     (AList.update (byte_of_CharCode code) r' d0)) b = Some r"
      by (simp add: x)
    from Cons.IH [OF this] show ?thesis
      using Some by (auto simp: x update_conv' split: if_splits)
  qed
qed

text \<open>
  Claim C8, as amended. \<^verbatim>\<open>NewCustomSimpleTextEncoder\<close> returns the error "empty custom
  encoding" when the encoding map is empty and an encoding otherwise, whatever the glyph
  table and \<^verbatim>\<open>ApplyDifferences\<close> are. With \<^verbatim>\<open>ApplyDifferences\<close> as the spec has it, the
  base name of the encoding returned is "custom", and the code of an entry whose glyph
  name does not resolve is absent from its decode map unless an entry of the map or of
  the differences that does resolve is stored under the same byte, \<^verbatim>\<open>byte(code)\<close>.
\<close>

theorem NewCustomSimpleTextEncoder_result:
  "(encoding = [] \<longrightarrow>
      NewCustomSimpleTextEncoder G AD encoding differences
        = Inl (errors_New ''empty custom encoding''))
   \<and> (encoding \<noteq> [] \<longrightarrow>
        (\<exists>enc. NewCustomSimpleTextEncoder G AD encoding differences = Inr enc))
   \<and> (\<forall>enc. NewCustomSimpleTextEncoder G (ApplyDifferences G) encoding differences = Inr enc \<longrightarrow>
          BaseName enc = ''custom''
          \<and> (\<forall>(code, glyph) \<in> set encoding.
                G glyph = None
                \<and> (\<forall>(code', glyph') \<in> set encoding \<union> set differences.
                      byte_of_CharCode code' = byte_of_CharCode code \<longrightarrow> G glyph' = None)
                \<longrightarrow> byte_of_CharCode code \<notin> fst ` set (decode enc)))"
proof (intro conjI impI allI)
  assume "encoding = []"
  then show "NewCustomSimpleTextEncoder G AD encoding differences
        = Inl (errors_New ''empty custom encoding'')"
    by (simp add: NewCustomSimpleTextEncoder_def)
next
  assume "encoding \<noteq> []"
  then show "\<exists>enc. NewCustomSimpleTextEncoder G AD encoding differences = Inr enc"
    by (simp add: NewCustomSimpleTextEncoder_def Let_def)
next
  fix enc
  assume r: "NewCustomSimpleTextEncoder G (ApplyDifferences G) encoding differences = Inr enc"
  let ?f = "\<lambda>(code, glyph) d.
                   case G glyph of
                     None \<Rightarrow> d
                   | Some r \<Rightarrow> AList.update (byte_of_CharCode code) r d"
  from r have ne: "encoding \<noteq> []"
    by (auto simp: NewCustomSimpleTextEncoder_def split: if_splits)
  from r ne have enc: "enc = (if differences \<noteq> []
      then ApplyDifferences G (newSimpleEncoderFromMap ''custom'' (fold ?f encoding [])) differences
      else newSimpleEncoderFromMap ''custom'' (fold ?f encoding []))"
    by (simp add: NewCustomSimpleTextEncoder_def Let_def)
  then show "BaseName enc = ''custom''"
    by (simp add: BaseName_def ApplyDifferences_def newSimpleEncoderFromMap_def)
  from enc have dec: "decode enc = fold ?f differences (fold ?f encoding [])"
    by (cases "differences = []") (simp_all add: ApplyDifferences_def newSimpleEncoderFromMap_def)
  have absent: "byte_of_CharCode code \<notin> fst ` set (decode enc)"
    if none: "\<forall>(code', glyph') \<in> set encoding \<union> set differences.
                byte_of_CharCode code' = byte_of_CharCode code \<longrightarrow> G glyph' = None"
    for code
  proof
    assume "byte_of_CharCode code \<in> fst ` set (decode enc)"
    then have "map_of (decode enc) (byte_of_CharCode code) \<noteq> None"
      by (simp add: map_of_eq_None_iff)
    then obtain r where
      r: "map_of (fold ?f differences (fold ?f encoding [])) (byte_of_CharCode code) = Some r"
      unfolding dec by auto
    have "(\<exists>(code', glyph') \<in> set encoding \<union> set differences.
             byte_of_CharCode code' = byte_of_CharCode code \<and> G glyph' = Some r)"
      using map_of_fold_glyphs [OF r]
        map_of_fold_glyphs [of G encoding "[]" "byte_of_CharCode code" r]
      by auto
    with none show False
      by (auto simp: case_prod_unfold)
  qed
  then show "\<forall>(code, glyph) \<in> set encoding.
                G glyph = None
                \<and> (\<forall>(code', glyph') \<in> set encoding \<union> set differences.
                      byte_of_CharCode code' = byte_of_CharCode code \<longrightarrow> G glyph' = None)
                \<longrightarrow> byte_of_CharCode code \<notin> fst ` set (decode enc)"
    by (simp add: case_prod_unfold)
qed

theorem NewCustomSimpleTextEncoder_result_witness:
  "[(0x41 :: CharCode, ''A''), (0x42, ''bogus'')] \<noteq> []
   \<and> NewCustomSimpleTextEncoder (map_of [(''A'', 0x41)]) (ApplyDifferences (map_of [(''A'', 0x41)]))
        [(0x41, ''A''), (0x42, ''bogus'')] []
      = Inr \<lparr>baseName = ''custom'', encode = [(0x41, 0x41)], decode = [(0x41, 0x41)]\<rparr>
   \<and> BaseName \<lparr>baseName = ''custom'', encode = [(0x41, 0x41)], decode = [(0x41, 0x41)]\<rparr> = ''custom''
   \<and> byte_of_CharCode 0x42
       \<notin> fst ` set (decode \<lparr>baseName = ''custom'', encode = [(0x41, 0x41)], decode = [(0x41, 0x41)]\<rparr>)
   \<and> NewCustomSimpleTextEncoder (map_of [(''A'', 0x41)]) (ApplyDifferences (map_of [(''A'', 0x41)]))
        [] [(0x41, ''A'')]
      = Inl (errors_New ''empty custom encoding'')"
proof -
  let ?G = "map_of [(''A'', 0x41 :: rune)]"
  let ?E = "\<lparr>baseName = ''custom'', encode = [(0x41, 0x41)], decode = [(0x41, 0x41)]\<rparr>"
  have r: "NewCustomSimpleTextEncoder ?G (ApplyDifferences ?G) [(0x41, ''A''), (0x42, ''bogus'')] []
      = Inr ?E"
    by (simp add: NewCustomSimpleTextEncoder_def newSimpleEncoderFromMap_def byte_of_CharCode_def)
  have g: "?G ''bogus'' = None"
    by simp
  have n: "\<forall>(code', glyph') \<in> set [(0x41 :: CharCode, ''A''), (0x42, ''bogus'')] \<union> set [].
             byte_of_CharCode code' = byte_of_CharCode 0x42 \<longrightarrow> ?G glyph' = None"
    by (simp add: byte_of_CharCode_def)
  have m: "(0x42, ''bogus'') \<in> set [(0x41 :: CharCode, ''A''), (0x42, ''bogus'')]"
    by simp
  note t = NewCustomSimpleTextEncoder_result
    [of "[(0x41, ''A''), (0x42, ''bogus'')]" ?G "ApplyDifferences ?G" "[]"]
  from t r have b: "BaseName ?E = ''custom''"
    by blast
  from t r have "\<forall>(code, glyph) \<in> set [(0x41 :: CharCode, ''A''), (0x42, ''bogus'')].
                ?G glyph = None
                \<and> (\<forall>(code', glyph') \<in> set [(0x41 :: CharCode, ''A''), (0x42, ''bogus'')] \<union> set [].
                      byte_of_CharCode code' = byte_of_CharCode code \<longrightarrow> ?G glyph' = None)
                \<longrightarrow> byte_of_CharCode code \<notin> fst ` set (decode ?E)"
    by blast
  with m g n have a: "byte_of_CharCode 0x42 \<notin> fst ` set (decode ?E)"
    by blast
  have e: "NewCustomSimpleTextEncoder ?G (ApplyDifferences ?G) [] [(0x41, ''A'')]
      = Inl (errors_New ''empty custom encoding'')"
    using NewCustomSimpleTextEncoder_result [of "[]" ?G "ApplyDifferences ?G" "[(0x41, ''A'')]"]
    by simp
  from r b a e show ?thesis by simp
qed

text \<open>
  The code 0x42 of an entry that does not resolve is present in the result when the
  entry of the wider code 0x142, which \<^verbatim>\<open>byte(code)\<close> stores under 0x42 too, resolves,
  and when the differences give the code a glyph name that resolves.
\<close>

theorem NewCustomSimpleTextEncoder_skip_counterexample:
  "map_of [(''A'', 0x41 :: rune)] ''bogus'' = None
   \<and> NewCustomSimpleTextEncoder (map_of [(''A'', 0x41)]) (ApplyDifferences (map_of [(''A'', 0x41)]))
        [(0x42, ''bogus''), (0x142, ''A'')] []
      = Inr \<lparr>baseName = ''custom'', encode = [(0x41, 0x42)], decode = [(0x42, 0x41)]\<rparr>
   \<and> NewCustomSimpleTextEncoder (map_of [(''A'', 0x41)]) (ApplyDifferences (map_of [(''A'', 0x41)]))
        [(0x42, ''bogus'')] [(0x42, ''A'')]
      = Inr \<lparr>baseName = ''custom'', encode = [(0x41, 0x42)], decode = [(0x42, 0x41)]\<rparr>
   \<and> CharcodeToRune 0xFFFD
        \<lparr>baseName = ''custom'', encode = [(0x41, 0x42)], decode = [(0x42, 0x41)]\<rparr> 0x42
      = (0x41, True)"
  by (simp add: NewCustomSimpleTextEncoder_def ApplyDifferences_def newSimpleEncoderFromMap_def
      byte_of_CharCode_def CharcodeToRune_def)

section \<open>The PDF object of an encoding\<close>

text \<open>
  Claim C10. \<^verbatim>\<open>ToPdfObject\<close> returns the name object of the base name when that is
  "MacRomanEncoding", "MacExpertEncoding" or \<^verbatim>\<open>baseWinAnsi\<close>; for every other base name
  it returns an indirect object holding a dictionary with Type "Encoding", BaseEncoding
  the base name, and Differences. "StandardEncoding" and "custom" are such names when
  \<^verbatim>\<open>baseWinAnsi\<close> is neither.
\<close>

theorem ToPdfObject_shape:
  "ToPdfObject w tfd enc =
     (if baseName enc = ''MacRomanEncoding'' \<or> baseName enc = ''MacExpertEncoding'' \<or> baseName enc = w
      then PdfObjectName (baseName enc)
      else PdfIndirectObject (PdfObjectDictionary
             [(''Type'', PdfObjectName ''Encoding''),
              (''BaseEncoding'', PdfObjectName (baseName enc)),
              (''Differences'', tfd [])]))
   \<and> (w \<noteq> ''StandardEncoding'' \<longrightarrow>
        ToPdfObject w tfd (enc\<lparr>baseName := ''StandardEncoding''\<rparr>) =
          PdfIndirectObject (PdfObjectDictionary
            [(''Type'', PdfObjectName ''Encoding''),
             (''BaseEncoding'', PdfObjectName ''StandardEncoding''),
             (''Differences'', tfd [])]))
   \<and> (w \<noteq> ''custom'' \<longrightarrow>
        ToPdfObject w tfd (enc\<lparr>baseName := ''custom''\<rparr>) =
          PdfIndirectObject (PdfObjectDictionary
            [(''Type'', PdfObjectName ''Encoding''),
             (''BaseEncoding'', PdfObjectName ''custom''),
             (''Differences'', tfd [])]))"
  by (simp add: ToPdfObject_def MakeName_def MakeDict_def dict_Set_def MakeIndirectObject_def)

theorem ToPdfObject_shape_witness:
  "''WinAnsiEncoding'' \<noteq> ''StandardEncoding'' \<and> ''WinAnsiEncoding'' \<noteq> ''custom''
   \<and> ToPdfObject ''WinAnsiEncoding'' (\<lambda>d. PdfObjectArray [])
        ((newSimpleEncoderFromMap ''MacRomanEncoding'' [(0x80, 0xC4)])\<lparr>baseName := ''StandardEncoding''\<rparr>)
      = PdfIndirectObject (PdfObjectDictionary
          [(''Type'', PdfObjectName ''Encoding''),
           (''BaseEncoding'', PdfObjectName ''StandardEncoding''),
           (''Differences'', PdfObjectArray [])])
   \<and> ToPdfObject ''WinAnsiEncoding'' (\<lambda>d. PdfObjectArray [])
        ((newSimpleEncoderFromMap ''MacRomanEncoding'' [(0x80, 0xC4)])\<lparr>baseName := ''custom''\<rparr>)
      = PdfIndirectObject (PdfObjectDictionary
          [(''Type'', PdfObjectName ''Encoding''),
           (''BaseEncoding'', PdfObjectName ''custom''),
           (''Differences'', PdfObjectArray [])])
   \<and> ToPdfObject ''WinAnsiEncoding'' (\<lambda>d. PdfObjectArray [])
        (newSimpleEncoderFromMap ''MacRomanEncoding'' [(0x80, 0xC4)])
      = PdfObjectName ''MacRomanEncoding''"
  using ToPdfObject_shape [of "''WinAnsiEncoding''" "\<lambda>d. PdfObjectArray []"
      "newSimpleEncoderFromMap ''MacRomanEncoding'' [(0x80, 0xC4)]"]
  by (simp add: newSimpleEncoderFromMap_def)

text \<open>
  Claim C2. Whenever \<^verbatim>\<open>ToPdfObject\<close> returns a dictionary, its Differences entry is
  what \<^verbatim>\<open>toFontDifferences\<close> makes of the empty map, and the object returned does not
  depend on the encode and decode maps of the encoding: differences applied to it
  leave the entry as it is.
\<close>

theorem ToPdfObject_Differences:
  "(\<forall>d. ToPdfObject w tfd enc = PdfIndirectObject (PdfObjectDictionary d)
         \<longrightarrow> map_of d ''Differences'' = Some (tfd []))
   \<and> ToPdfObject w tfd (enc\<lparr>encode := e, decode := dc\<rparr>) = ToPdfObject w tfd enc"
  by (auto simp add: ToPdfObject_def MakeName_def MakeDict_def dict_Set_def MakeIndirectObject_def)

theorem ToPdfObject_Differences_witness:
  "ToPdfObject ''WinAnsiEncoding'' (\<lambda>d. PdfObjectArray (map (\<lambda>(c, g). PdfObjectName g) d))
     (ApplyDifferences (map_of [(''quotesingle'', 0x27)])
        (newSimpleEncoderFromMap ''StandardEncoding'' [(0x27, 0x2019)]) [(0x27, ''quotesingle'')])
   = PdfIndirectObject (PdfObjectDictionary
       [(''Type'', PdfObjectName ''Encoding''),
        (''BaseEncoding'', PdfObjectName ''StandardEncoding''),
        (''Differences'', PdfObjectArray [])])
   \<and> map_of [(''Type'', PdfObjectName ''Encoding''),
        (''BaseEncoding'', PdfObjectName ''StandardEncoding''),
        (''Differences'', PdfObjectArray [])] ''Differences''
      = Some (PdfObjectArray [])"
proof -
  let ?tfd = "\<lambda>d. PdfObjectArray (map (\<lambda>(c :: CharCode, g). PdfObjectName g) d)"
  let ?E = "ApplyDifferences (map_of [(''quotesingle'', 0x27)])
        (newSimpleEncoderFromMap ''StandardEncoding'' [(0x27, 0x2019)]) [(0x27, ''quotesingle'')]"
  let ?D = "[(''Type'', PdfObjectName ''Encoding''),
        (''BaseEncoding'', PdfObjectName ''StandardEncoding''),
        (''Differences'', PdfObjectArray [])]"
  have r: "ToPdfObject ''WinAnsiEncoding'' ?tfd ?E = PdfIndirectObject (PdfObjectDictionary ?D)"
    by (simp add: ToPdfObject_def MakeName_def MakeDict_def dict_Set_def MakeIndirectObject_def
        ApplyDifferences_def newSimpleEncoderFromMap_def)
  from ToPdfObject_Differences [of "''WinAnsiEncoding''" ?tfd ?E] r
  have "map_of ?D ''Differences'' = Some (?tfd [])"
    by blast
  with r show ?thesis
    by simp
qed


section \<open>Facts about unicode/utf8\<close>

lemma utf8_first_cases:
  "utf8_first b \<in> {0xF0, 0xF1, 0x02, 0x13, 0x03, 0x23, 0x34, 0x04, 0x44}"
  by (simp add: utf8_first_def)

lemma acceptRanges_nth:
  "acceptRanges ! 0 = (0x80, 0xBF)" "acceptRanges ! Suc 0 = (0xA0, 0xBF)"
  "acceptRanges ! 2 = (0x80, 0x9F)" "acceptRanges ! 3 = (0x90, 0xBF)"
  "acceptRanges ! 4 = (0x80, 0x8F)"
  by (simp_all add: acceptRanges_def eval_nat_numeral)

lemma DecodeRune_size:
  assumes "p \<noteq> []"
  shows "1 \<le> snd (DecodeRune p) \<and> snd (DecodeRune p) \<le> length p"
proof -
  from assms have n: "Suc 0 \<le> length p" by (cases p) simp_all
  show ?thesis
    using utf8_first_cases [of "p ! 0"] n
    by (auto simp add: DecodeRune_def Let_def acceptRanges_nth)
qed

text \<open>A leading byte of class ASCII or invalid: one byte decides.\<close>

lemma FullRune_append_single:
  assumes "p \<noteq> []" and "utf8_first (p ! 0) = 0xF0 \<or> utf8_first (p ! 0) = 0xF1"
  shows "DecodeRune (p @ q) = DecodeRune p \<and> FullRune (p @ q)"
proof -
  from assms(1) have n: "Suc 0 \<le> length p" by (cases p) simp_all
  from assms(1) have h: "(p @ q) ! 0 = p ! 0" by (cases p) simp_all
  from assms(2) show ?thesis
    using n by (auto simp add: DecodeRune_def FullRune_def Let_def h)
qed

text \<open>A leading byte that opens a sequence of \<open>sz\<close> bytes, the second within \<open>lo\<close> and \<open>hi\<close>.\<close>

lemma DecodeRune_multi:
  assumes "p \<noteq> []" and "utf8_first (p ! 0) = x" and "x < 0xF0"
    and "unat (x AND 7) = sz" and "acceptRanges ! unat (drop_bit 4 x) = (lo, hi)"
  shows "DecodeRune p =
     (if length p < sz then (RuneError, 1)
      else if p ! 1 < lo \<or> hi < p ! 1 then (RuneError, 1)
      else if sz \<le> 2 then (push_bit 6 (uint (p ! 0 AND 0x1F)) OR uint (p ! 1 AND 0x3F), 2)
      else if p ! 2 < 0x80 \<or> 0xBF < p ! 2 then (RuneError, 1)
      else if sz \<le> 3 then
        (push_bit 12 (uint (p ! 0 AND 0x0F)) OR push_bit 6 (uint (p ! 1 AND 0x3F))
           OR uint (p ! 2 AND 0x3F), 3)
      else if p ! 3 < 0x80 \<or> 0xBF < p ! 3 then (RuneError, 1)
      else
        (push_bit 18 (uint (p ! 0 AND 0x07)) OR push_bit 12 (uint (p ! 1 AND 0x3F))
           OR push_bit 6 (uint (p ! 2 AND 0x3F)) OR uint (p ! 3 AND 0x3F), 4))"
proof -
  from assms(1) have n: "\<not> length p < 1" by (cases p) simp_all
  from assms(3) have x: "\<not> 0xF0 \<le> x" by simp
  show ?thesis
    unfolding DecodeRune_def Let_def assms(2) assms(4) assms(5) prod.case if_not_P [OF n] if_not_P [OF x]
    by (rule refl)
qed

lemma FullRune_multi:
  assumes "p \<noteq> []" and "utf8_first (p ! 0) = x"
    and "unat (x AND 7) = sz" and "acceptRanges ! unat (drop_bit 4 x) = (lo, hi)"
  shows "FullRune p =
     (sz \<le> length p \<or> (1 < length p \<and> (p ! 1 < lo \<or> hi < p ! 1))
        \<or> (2 < length p \<and> (p ! 2 < 0x80 \<or> 0xBF < p ! 2)))"
proof -
  from assms(1) have n: "length p \<noteq> 0" by simp
  show ?thesis
    unfolding FullRune_def Let_def assms(2) assms(3) assms(4) prod.case if_not_P [OF n]
    by auto
qed


lemma FullRune_append_multi:
  assumes ne: "p \<noteq> []" and x: "utf8_first (p ! 0) = x" and lt: "x < 0xF0"
    and sz: "unat (x AND 7) = sz" and ar: "acceptRanges ! unat (drop_bit 4 x) = (lo, hi)"
    and sz2: "2 \<le> sz" and sz4: "sz \<le> 4" and full: "FullRune p"
  shows "DecodeRune (p @ q) = DecodeRune p \<and> FullRune (p @ q)"
proof -
  from ne have h0: "(p @ q) ! 0 = p ! 0" by (cases p) simp_all
  from ne have neq: "p @ q \<noteq> []" by simp
  from x h0 have xq: "utf8_first ((p @ q) ! 0) = x" by simp
  note D = DecodeRune_multi [OF ne x lt sz ar]
  note Dq = DecodeRune_multi [OF neq xq lt sz ar]
  note F = FullRune_multi [OF ne x sz ar]
  note Fq = FullRune_multi [OF neq xq sz ar]
  have h1: "(p @ q) ! 1 = p ! 1" if "1 < length p"
    using that by (simp add: nth_append)
  have h2: "(p @ q) ! 2 = p ! 2" if "2 < length p"
    using that by (simp add: nth_append)
  have h3: "(p @ q) ! 3 = p ! 3" if "3 < length p"
    using that by (simp add: nth_append)
  from full F consider
      (a) "sz \<le> length p"
    | (b) "length p < sz" "1 < length p" "p ! 1 < lo \<or> hi < p ! 1"
    | (c) "length p < sz" "2 < length p" "\<not> (p ! 1 < lo \<or> hi < p ! 1)" "p ! 2 < 0x80 \<or> 0xBF < p ! 2"
    by fastforce
  then show ?thesis
  proof cases
    case a
    with sz2 have 1: "1 < length p" by simp
    have e1: "(p @ q) ! 1 = p ! 1" using h1 1 by simp
    have e2: "(p @ q) ! 2 = p ! 2" if "\<not> sz \<le> 2" using h2 that a by simp
    have e3: "(p @ q) ! 3 = p ! 3" if "\<not> sz \<le> 3" using h3 that a by simp
    have nl: "\<not> length p < sz" "\<not> length (p @ q) < sz" using a by simp_all
    have "DecodeRune (p @ q) = DecodeRune p"
      unfolding D Dq h0 e1 if_not_P [OF nl(1)] if_not_P [OF nl(2)]
      by (simp add: e2 e3)
    moreover have "FullRune (p @ q)"
      unfolding Fq using a by simp
    ultimately show ?thesis by simp
  next
    case b
    have e1: "(p @ q) ! 1 = p ! 1" using h1 b(2) by simp
    have "DecodeRune p = (RuneError, 1)"
      unfolding D using b(1) by simp
    moreover have "DecodeRune (p @ q) = (RuneError, 1)"
      unfolding Dq e1 using b(3) by simp
    moreover have "FullRune (p @ q)"
      unfolding Fq e1 using b(2) b(3) by simp
    ultimately show ?thesis by simp
  next
    case c
    from c(2) have 1: "1 < length p" by simp
    have e1: "(p @ q) ! 1 = p ! 1" using h1 1 by simp
    have e2: "(p @ q) ! 2 = p ! 2" using h2 c(2) by simp
    from c(1) c(2) have s: "\<not> sz \<le> 2" by simp
    have "DecodeRune p = (RuneError, 1)"
      unfolding D using c(1) by simp
    moreover have "DecodeRune (p @ q) = (RuneError, 1)"
      unfolding Dq e1 e2 using c(3) c(4) s by simp
    moreover have "FullRune (p @ q)"
      unfolding Fq e1 e2 using c(2) c(4) by simp
    ultimately show ?thesis by simp
  qed
qed

lemma FullRune_append:
  assumes "FullRune p"
  shows "DecodeRune (p @ q) = DecodeRune p \<and> FullRune (p @ q)"
proof -
  from assms have ne: "p \<noteq> []" by (auto simp: FullRune_def)
  from utf8_first_cases [of "p ! 0"] consider
      "utf8_first (p ! 0) = 0xF0 \<or> utf8_first (p ! 0) = 0xF1"
    | "utf8_first (p ! 0) = 0x02" | "utf8_first (p ! 0) = 0x13" | "utf8_first (p ! 0) = 0x03"
    | "utf8_first (p ! 0) = 0x23" | "utf8_first (p ! 0) = 0x34" | "utf8_first (p ! 0) = 0x04"
    | "utf8_first (p ! 0) = 0x44"
    by auto
  then show ?thesis
  proof cases
    case 1
    from FullRune_append_single [OF ne 1] show ?thesis .
  next
    case 2
    show ?thesis
      by (rule FullRune_append_multi [OF ne 2 _ _ _ _ _ assms, where sz = 2])
        (simp_all add: acceptRanges_nth)
  next
    case 3
    show ?thesis
      by (rule FullRune_append_multi [OF ne 3 _ _ _ _ _ assms, where sz = 3])
        (simp_all add: acceptRanges_nth)
  next
    case 4
    show ?thesis
      by (rule FullRune_append_multi [OF ne 4 _ _ _ _ _ assms, where sz = 3])
        (simp_all add: acceptRanges_nth)
  next
    case 5
    show ?thesis
      by (rule FullRune_append_multi [OF ne 5 _ _ _ _ _ assms, where sz = 3])
        (simp_all add: acceptRanges_nth)
  next
    case 6
    show ?thesis
      by (rule FullRune_append_multi [OF ne 6 _ _ _ _ _ assms, where sz = 4])
        (simp_all add: acceptRanges_nth)
  next
    case 7
    show ?thesis
      by (rule FullRune_append_multi [OF ne 7 _ _ _ _ _ assms, where sz = 4])
        (simp_all add: acceptRanges_nth)
  next
    case 8
    show ?thesis
      by (rule FullRune_append_multi [OF ne 8 _ _ _ _ _ assms, where sz = 4])
        (simp_all add: acceptRanges_nth)
  qed
qed

lemma encodeRuneBytes_length:
  "1 \<le> length (encodeRuneBytes r) \<and> length (encodeRuneBytes r) \<le> 4"
  by (simp add: encodeRuneBytes_def)

lemma RuneLen_ValidRune: "ValidRune r \<Longrightarrow> RuneLen r = int (length (encodeRuneBytes r))"
  by (auto simp: ValidRune_def RuneLen_def encodeRuneBytes_def)

lemma RuneLen_le: "RuneLen r \<le> int (length (encodeRuneBytes r))"
  by (auto simp: RuneLen_def encodeRuneBytes_def)

section \<open>The decoding loop\<close>

lemma simpleDecoder_loop_Cons:
  "simpleDecoder_loop mcr m dst (b # src) out nDst nSrc =
     (if RuneLen (decoded_rune mcr m b) > int (length dst)
      then Inr (out, nDst, nSrc, Some ErrShortDst)
      else if length dst < length (encodeRuneBytes (decoded_rune mcr m b))
      then Inl IndexOutOfRange
      else simpleDecoder_loop mcr m (drop (length (encodeRuneBytes (decoded_rune mcr m b))) dst) src
             (out @ encodeRuneBytes (decoded_rune mcr m b))
             (nDst + length (encodeRuneBytes (decoded_rune mcr m b))) (nSrc + 1))"
  by (simp add: EncodeRune_def Let_def decoded_rune_def)

lemma simpleDecoder_loop_mono:
  "simpleDecoder_loop mcr m dst src out nDst nSrc = Inr (out', nDst', nSrc', err)
     \<Longrightarrow> nDst \<le> nDst' \<and> nSrc \<le> nSrc'"
proof (induction src arbitrary: dst out nDst nSrc)
  case Nil
  then show ?case by simp
next
  case (Cons b src)
  show ?case
  proof (cases "RuneLen (decoded_rune mcr m b) > int (length dst)
      \<or> length dst < length (encodeRuneBytes (decoded_rune mcr m b))")
    case True
    with Cons.prems show ?thesis
      by (auto simp: simpleDecoder_loop_Cons simp del: simpleDecoder_loop.simps split: if_splits)
  next
    case False
    with Cons.prems have "simpleDecoder_loop mcr m (drop (length (encodeRuneBytes (decoded_rune mcr m b))) dst) src
             (out @ encodeRuneBytes (decoded_rune mcr m b))
             (nDst + length (encodeRuneBytes (decoded_rune mcr m b))) (nSrc + 1) = Inr (out', nDst', nSrc', err)"
      by (simp add: simpleDecoder_loop_Cons del: simpleDecoder_loop.simps)
    from Cons.IH [OF this] show ?thesis by simp
  qed
qed

lemma simpleDecoder_loop_append:
  "simpleDecoder_loop mcr m dst p out nDst nSrc = Inr (out', nDst', nSrc', None)
     \<Longrightarrow> simpleDecoder_loop mcr m dst (p @ q) out nDst nSrc
         = simpleDecoder_loop mcr m (drop (nDst' - nDst) dst) q out' nDst' nSrc'"
proof (induction p arbitrary: dst out nDst nSrc)
  case Nil
  then show ?case by simp
next
  case (Cons b p)
  let ?bs = "encodeRuneBytes (decoded_rune mcr m b)"
  from Cons.prems have ok: "\<not> RuneLen (decoded_rune mcr m b) > int (length dst)"
      "\<not> length dst < length ?bs"
    by (auto simp: simpleDecoder_loop_Cons simp del: simpleDecoder_loop.simps split: if_splits)
  with Cons.prems have r: "simpleDecoder_loop mcr m (drop (length ?bs) dst) p (out @ ?bs)
             (nDst + length ?bs) (nSrc + 1) = Inr (out', nDst', nSrc', None)"
    by (simp add: simpleDecoder_loop_Cons del: simpleDecoder_loop.simps)
  from simpleDecoder_loop_mono [OF r] have "nDst + length ?bs \<le> nDst'" by simp
  then have d: "drop (nDst' - (nDst + length ?bs)) (drop (length ?bs) dst) = drop (nDst' - nDst) dst"
    by simp
  show ?case
    using Cons.IH [OF r, unfolded d] ok
    by (simp add: simpleDecoder_loop_Cons del: simpleDecoder_loop.simps)
qed

text \<open>
  The runes of the spec's data model are Unicode scalar values. For any other value
  \<^verbatim>\<open>utf8.RuneLen\<close> is \<open>-1\<close>, the test of the loop lets it pass, and
  \<^verbatim>\<open>utf8.EncodeRune\<close>, which stores the three bytes of \<^verbatim>\<open>RuneError\<close>, panics when
  fewer are left. The statements about the decoding loop below are about scalar values.
\<close>

lemma simpleDecoder_loop_surrogate:
  "simpleDecoder_Transform mcr [(0x41, 0xD800)] [x] [0x41] atEOF = Inl IndexOutOfRange"
  by (simp add: simpleDecoder_Transform_def simpleDecoder_loop_Cons decoded_rune_def RuneLen_def
      encodeRuneBytes_def del: simpleDecoder_loop.simps(2))

lemma MacRoman_80: "decoded_rune mcr MacRomanEncoding 0x80 = 0xC4"
  by (simp add: decoded_rune_def MacRomanEncoding_def)

lemma MacRoman_81: "decoded_rune mcr MacRomanEncoding 0x81 = 0xC5"
  by (simp add: decoded_rune_def MacRomanEncoding_def)

lemma enc_C4: "encodeRuneBytes 0xC4 = [0xC3, 0x84]" "RuneLen 0xC4 = 2"
  by (simp_all add: encodeRuneBytes_def RuneLen_def)

lemma enc_C5: "encodeRuneBytes 0xC5 = [0xC3, 0x85]" "RuneLen 0xC5 = 2"
  by (simp_all add: encodeRuneBytes_def RuneLen_def)

text \<open>
  Claim C4, as amended. When the bytes before a byte have been decoded into the
  destination and the rune of that byte is a Unicode scalar value whose UTF-8 encoding is
  longer than the room left, \<^verbatim>\<open>Transform\<close> returns the short destination error with
  the counts and the bytes written as they were before that byte: the step consumes and
  writes nothing. Under MacRomanEncoding, decoding 0x80 0x81 into a destination of one
  byte returns that error with nothing written and nothing consumed. Retrying with four
  bytes of room or more writes the UTF-8 of U+00C4 and of U+00C5. Retrying with two or
  three bytes writes that of U+00C4 alone and reports a short destination again, and the
  remaining 0x81 then decodes, into two bytes or more, to the UTF-8 of U+00C5.
\<close>

theorem simpleDecoder_short_destination:
  "(simpleDecoder_Transform mcr m dst p atEOF = Inr (out, nDst, nSrc, None)
      \<and> ValidRune (decoded_rune mcr m b)
      \<and> length dst - nDst < length (encodeRuneBytes (decoded_rune mcr m b))
    \<longrightarrow> simpleDecoder_Transform mcr m dst (p @ b # q) atEOF'
          = Inr (out, nDst, nSrc, Some ErrShortDst))
   \<and> (length d1 = 1 \<longrightarrow>
        simpleDecoder_Transform mcr MacRomanEncoding d1 [0x80, 0x81] atEOF
          = Inr ([], 0, 0, Some ErrShortDst))
   \<and> (4 \<le> length d2 \<longrightarrow>
        simpleDecoder_Transform mcr MacRomanEncoding d2 [0x80, 0x81] atEOF
          = Inr ([0xC3, 0x84, 0xC3, 0x85], 4, 2, None))
   \<and> (length d3 = 2 \<or> length d3 = 3 \<longrightarrow>
        simpleDecoder_Transform mcr MacRomanEncoding d3 [0x80, 0x81] atEOF
          = Inr ([0xC3, 0x84], 2, 1, Some ErrShortDst))
   \<and> (2 \<le> length d4 \<longrightarrow>
        simpleDecoder_Transform mcr MacRomanEncoding d4 [0x81] atEOF
          = Inr ([0xC3, 0x85], 2, 1, None))"
proof (intro conjI impI)
  assume a: "simpleDecoder_Transform mcr m dst p atEOF = Inr (out, nDst, nSrc, None)
      \<and> ValidRune (decoded_rune mcr m b)
      \<and> length dst - nDst < length (encodeRuneBytes (decoded_rune mcr m b))"
  then have "simpleDecoder_loop mcr m dst p [] 0 0 = Inr (out, nDst, nSrc, None)"
    by (simp add: simpleDecoder_Transform_def)
  from simpleDecoder_loop_append [OF this]
  have "simpleDecoder_Transform mcr m dst (p @ b # q) atEOF'
      = simpleDecoder_loop mcr m (drop nDst dst) (b # q) out nDst nSrc"
    by (simp add: simpleDecoder_Transform_def)
  also have "\<dots> = Inr (out, nDst, nSrc, Some ErrShortDst)"
    using a RuneLen_ValidRune [of "decoded_rune mcr m b"]
    by (simp add: simpleDecoder_loop_Cons del: simpleDecoder_loop.simps)
  finally show "simpleDecoder_Transform mcr m dst (p @ b # q) atEOF'
      = Inr (out, nDst, nSrc, Some ErrShortDst)" .
next
  assume "length d1 = 1"
  then show "simpleDecoder_Transform mcr MacRomanEncoding d1 [0x80, 0x81] atEOF
          = Inr ([], 0, 0, Some ErrShortDst)"
    by (simp add: simpleDecoder_Transform_def simpleDecoder_loop_Cons MacRoman_80 enc_C4
        del: simpleDecoder_loop.simps(2))
next
  assume "4 \<le> length d2"
  then show "simpleDecoder_Transform mcr MacRomanEncoding d2 [0x80, 0x81] atEOF
          = Inr ([0xC3, 0x84, 0xC3, 0x85], 4, 2, None)"
    by (simp add: simpleDecoder_Transform_def simpleDecoder_loop_Cons MacRoman_80 MacRoman_81
        enc_C4 enc_C5 del: simpleDecoder_loop.simps(2))
next
  assume "length d3 = 2 \<or> length d3 = 3"
  then show "simpleDecoder_Transform mcr MacRomanEncoding d3 [0x80, 0x81] atEOF
          = Inr ([0xC3, 0x84], 2, 1, Some ErrShortDst)"
    by (auto simp add: simpleDecoder_Transform_def simpleDecoder_loop_Cons MacRoman_80 MacRoman_81
        enc_C4 enc_C5 simp del: simpleDecoder_loop.simps(2))
next
  assume "2 \<le> length d4"
  then show "simpleDecoder_Transform mcr MacRomanEncoding d4 [0x81] atEOF
          = Inr ([0xC3, 0x85], 2, 1, None)"
    by (simp add: simpleDecoder_Transform_def simpleDecoder_loop_Cons MacRoman_81 enc_C5
        del: simpleDecoder_loop.simps(2))
qed

theorem simpleDecoder_short_destination_witness:
  "simpleDecoder_Transform 0xFFFD [(0x80, 0xC4), (0x41, 0x41)] [0, 0] [0x41] True
     = Inr ([0x41], 1, 1, None)
   \<and> ValidRune (decoded_rune 0xFFFD [(0x80, 0xC4), (0x41, 0x41)] 0x80)
   \<and> length [0 :: byte, 0] - 1
       < length (encodeRuneBytes (decoded_rune 0xFFFD [(0x80, 0xC4), (0x41, 0x41)] 0x80))
   \<and> simpleDecoder_Transform 0xFFFD [(0x80, 0xC4), (0x41, 0x41)] [0, 0] ([0x41] @ 0x80 # [0x81]) False
       = Inr ([0x41], 1, 1, Some ErrShortDst)
   \<and> length [0 :: byte] = 1
   \<and> simpleDecoder_Transform 0xFFFD MacRomanEncoding [0] [0x80, 0x81] False
       = Inr ([], 0, 0, Some ErrShortDst)
   \<and> 4 \<le> length [0 :: byte, 0, 0, 0]
   \<and> simpleDecoder_Transform 0xFFFD MacRomanEncoding [0, 0, 0, 0] [0x80, 0x81] False
       = Inr ([0xC3, 0x84, 0xC3, 0x85], 4, 2, None)
   \<and> length [0 :: byte, 0] = 2
   \<and> simpleDecoder_Transform 0xFFFD MacRomanEncoding [0, 0] [0x80, 0x81] False
       = Inr ([0xC3, 0x84], 2, 1, Some ErrShortDst)
   \<and> 2 \<le> length [0 :: byte, 0]
   \<and> simpleDecoder_Transform 0xFFFD MacRomanEncoding [0, 0] [0x81] False
       = Inr ([0xC3, 0x85], 2, 1, None)"
proof -
  have h1: "simpleDecoder_Transform 0xFFFD [(0x80, 0xC4), (0x41, 0x41)] [0, 0] [0x41] True
     = Inr ([0x41], 1, 1, None)"
    by code_simp
  have h2: "ValidRune (decoded_rune 0xFFFD [(0x80, 0xC4), (0x41, 0x41)] 0x80)"
    by code_simp
  have h3: "length [0 :: byte, 0] - 1
       < length (encodeRuneBytes (decoded_rune 0xFFFD [(0x80, 0xC4), (0x41, 0x41)] 0x80))"
    by code_simp
  note t = simpleDecoder_short_destination [where mcr = "0xFFFD" and m = "[(0x80, 0xC4), (0x41, 0x41)]"
      and dst = "[0, 0]" and p = "[0x41]" and atEOF = False and out = "[0x41]" and nDst = 1
      and nSrc = 1 and b = "0x80" and q = "[0x81]" and atEOF' = False
      and ?d1.0 = "[0]" and ?d2.0 = "[0, 0, 0, 0]" and ?d3.0 = "[0, 0]" and ?d4.0 = "[0, 0]"]
  have h1': "simpleDecoder_Transform 0xFFFD [(0x80, 0xC4), (0x41, 0x41)] [0, 0] [0x41] False
     = Inr ([0x41], 1, 1, None)"
    using h1 by (simp add: simpleDecoder_Transform_def)
  from t h1' h2 h3 h1 show ?thesis
    by simp
qed

text \<open>
  A retry with two bytes of room does not write both runes: the second rune needs two
  bytes more, and the call ends with a short destination after the first.
\<close>

theorem simpleDecoder_retry_two_bytes_counterexample:
  "2 \<le> length [0 :: byte, 0]
   \<and> simpleDecoder_Transform 0xFFFD MacRomanEncoding [0, 0] [0x80, 0x81] False
       = Inr ([0xC3, 0x84], 2, 1, Some ErrShortDst)
   \<and> simpleDecoder_Transform 0xFFFD MacRomanEncoding [0, 0] [0x80, 0x81] False
       \<noteq> Inr ([0xC3, 0x84, 0xC3, 0x85], 4, 2, None)"
  by (simp add: simpleDecoder_Transform_def simpleDecoder_loop_Cons MacRoman_80 MacRoman_81
      enc_C4 enc_C5 del: simpleDecoder_loop.simps(2))

section \<open>The encoding loop\<close>

lemma simpleEncoder_loop_step:
  assumes "src \<noteq> []" and "FullRune src \<or> atEOF" and "dst \<noteq> []"
  shows "simpleEncoder_loop mcr m dst src atEOF out nDst nSrc =
     simpleEncoder_loop mcr m (tl dst) (drop (snd (DecodeRune src)) src) atEOF
       (out @ [encoded_byte mcr m (fst (DecodeRune src))]) (nDst + 1) (nSrc + snd (DecodeRune src))"
proof -
  obtain x xs where dst: "dst = x # xs" using assms(3) by (cases dst) auto
  show ?thesis
    apply (subst simpleEncoder_loop.simps)
    using assms(1,2) apply (auto simp add: dst encoded_byte_def Let_def split: prod.splits)
    done
qed

lemma simpleEncoder_loop_stop:
  "simpleEncoder_loop mcr m dst [] atEOF out nDst nSrc = (out, nDst, nSrc, None)"
  "src \<noteq> [] \<Longrightarrow> \<not> FullRune src \<Longrightarrow> \<not> atEOF
     \<Longrightarrow> simpleEncoder_loop mcr m dst src atEOF out nDst nSrc = (out, nDst, nSrc, Some ErrShortSrc)"
  "src \<noteq> [] \<Longrightarrow> FullRune src \<or> atEOF
     \<Longrightarrow> simpleEncoder_loop mcr m [] src atEOF out nDst nSrc = (out, nDst, nSrc, Some ErrShortDst)"
  by (subst simpleEncoder_loop.simps, simp)+

lemma simpleEncoder_loop_acc:
  "simpleEncoder_loop mcr m dst src atEOF out nDst nSrc =
     (case simpleEncoder_loop mcr m dst src atEOF [] 0 0 of
        (w, d, s, err) \<Rightarrow> (out @ w, nDst + d, nSrc + s, err))"
proof (induction "length src" arbitrary: src dst out nDst nSrc rule: less_induct)
  case less
  consider (nil) "src = []" | (short) "src \<noteq> []" "\<not> FullRune src" "\<not> atEOF"
    | (full) "src \<noteq> []" "FullRune src \<or> atEOF" "dst = []"
    | (step) "src \<noteq> []" "FullRune src \<or> atEOF" "dst \<noteq> []"
    by blast
  then show ?case
  proof cases
    case nil
    then show ?thesis by (simp add: simpleEncoder_loop_stop)
  next
    case short
    then show ?thesis by (simp add: simpleEncoder_loop_stop)
  next
    case full
    then show ?thesis by (simp add: simpleEncoder_loop_stop)
  next
    case step
    let ?n = "snd (DecodeRune src)"
    let ?b = "encoded_byte mcr m (fst (DecodeRune src))"
    from DecodeRune_size [OF step(1)] step(1) have l: "length (drop ?n src) < length src"
      by simp
    note s1 = simpleEncoder_loop_step [OF step]
    show ?thesis
      unfolding s1 [of mcr m out nDst nSrc] s1 [of mcr m "[]" 0 0]
      apply (subst less [OF l])
      apply (subst (2) less [OF l])
      apply (simp split: prod.splits)
      done
  qed
qed

lemma simpleEncoder_Transform_step:
  assumes "src \<noteq> []" and "FullRune src \<or> atEOF" and "dst \<noteq> []"
  shows "simpleEncoder_Transform mcr m dst src atEOF =
     (case simpleEncoder_Transform mcr m (tl dst) (drop (snd (DecodeRune src)) src) atEOF of
        (w, d, s, err) \<Rightarrow>
          (encoded_byte mcr m (fst (DecodeRune src)) # w, Suc d, snd (DecodeRune src) + s, err))"
  unfolding simpleEncoder_Transform_def simpleEncoder_loop_step [OF assms]
  by (subst simpleEncoder_loop_acc) (simp split: prod.splits)

lemma simpleEncoder_Transform_stop:
  "simpleEncoder_Transform mcr m dst [] atEOF = ([], 0, 0, None)"
  "src \<noteq> [] \<Longrightarrow> \<not> FullRune src \<Longrightarrow> \<not> atEOF
     \<Longrightarrow> simpleEncoder_Transform mcr m dst src atEOF = ([], 0, 0, Some ErrShortSrc)"
  "src \<noteq> [] \<Longrightarrow> FullRune src \<or> atEOF
     \<Longrightarrow> simpleEncoder_Transform mcr m [] src atEOF = ([], 0, 0, Some ErrShortDst)"
  by (simp_all add: simpleEncoder_Transform_def simpleEncoder_loop_stop)

lemma simpleEncoder_Transform_bounds:
  assumes "simpleEncoder_Transform mcr m dst p e = (w, d, s, err)"
  shows "d = length w \<and> d \<le> length dst \<and> d \<le> s \<and> s \<le> length p
         \<and> (err = None \<longrightarrow> s = length p)
         \<and> (err = Some ErrShortSrc \<longrightarrow> \<not> e)
         \<and> (err = Some ErrShortDst \<longrightarrow> d = length dst)"
  using assms
proof (induction "length p" arbitrary: p dst w d s err rule: less_induct)
  case less
  consider (nil) "p = []" | (short) "p \<noteq> []" "\<not> FullRune p" "\<not> e"
    | (full) "p \<noteq> []" "FullRune p \<or> e" "dst = []"
    | (step) "p \<noteq> []" "FullRune p \<or> e" "dst \<noteq> []"
    by blast
  then show ?case
  proof cases
    case nil
    with less.prems show ?thesis by (auto simp add: simpleEncoder_Transform_stop)
  next
    case short
    with less.prems show ?thesis by (auto simp add: simpleEncoder_Transform_stop)
  next
    case full
    with less.prems show ?thesis by (auto simp add: simpleEncoder_Transform_stop)
  next
    case step
    let ?n = "snd (DecodeRune p)"
    from DecodeRune_size [OF step(1)] have n: "1 \<le> ?n" "?n \<le> length p" by simp_all
    with step(1) have l: "length (drop ?n p) < length p" by simp
    obtain w1 d1 s1 err1 where r: "simpleEncoder_Transform mcr m (tl dst) (drop ?n p) e = (w1, d1, s1, err1)"
      by (cases "simpleEncoder_Transform mcr m (tl dst) (drop ?n p) e") auto
    from less.prems have eq: "w = encoded_byte mcr m (fst (DecodeRune p)) # w1" "d = Suc d1"
        "s = ?n + s1" "err = err1"
      by (simp_all add: simpleEncoder_Transform_step [OF step] r)
    from step(3) have t: "Suc (length (tl dst)) = length dst" by (cases dst) simp_all
    from less.hyps [OF l r] show ?thesis
      using n t by (auto simp: eq)
  qed
qed

lemma simpleEncoder_Transform_resume:
  assumes "simpleEncoder_Transform mcr m dst p e1 = (w, d, s, err)"
    and "length dst \<le> length dst' \<or> length p + length q \<le> length dst'"
    and "e1 \<longrightarrow> q = [] \<and> e2"
  shows "simpleEncoder_Transform mcr m dst' (p @ q) e2 =
     (case simpleEncoder_Transform mcr m (drop d dst') (drop s p @ q) e2 of
        (w2, d2, s2, err2) \<Rightarrow> (w @ w2, d + d2, s + s2, err2))"
  using assms(1,2)
proof (induction "length p" arbitrary: p dst dst' w d s err rule: less_induct)
  case less
  consider (nil) "p = []" | (short) "p \<noteq> []" "\<not> FullRune p" "\<not> e1"
    | (full) "p \<noteq> []" "FullRune p \<or> e1" "dst = []"
    | (step) "p \<noteq> []" "FullRune p \<or> e1" "dst \<noteq> []"
    by blast
  then show ?case
  proof cases
    case nil
    with less.prems show ?thesis by (simp add: simpleEncoder_Transform_stop split: prod.splits)
  next
    case short
    with less.prems show ?thesis by (simp add: simpleEncoder_Transform_stop split: prod.splits)
  next
    case full
    with less.prems show ?thesis by (simp add: simpleEncoder_Transform_stop split: prod.splits)
  next
    case step
    let ?n = "snd (DecodeRune p)"
    let ?b = "encoded_byte mcr m (fst (DecodeRune p))"
    from DecodeRune_size [OF step(1)] have n: "1 \<le> ?n" "?n \<le> length p" by simp_all
    with step(1) have l: "length (drop ?n p) < length p" by simp
    obtain w1 d1 s1 err1 where r: "simpleEncoder_Transform mcr m (tl dst) (drop ?n p) e1 = (w1, d1, s1, err1)"
      by (cases "simpleEncoder_Transform mcr m (tl dst) (drop ?n p) e1") auto
    from less.prems(1) have eq: "w = ?b # w1" "d = Suc d1" "s = ?n + s1" "err = err1"
      by (simp_all add: simpleEncoder_Transform_step [OF step] r)
    have dq: "DecodeRune (p @ q) = DecodeRune p" and fq: "FullRune (p @ q) \<or> e2"
      using step(2) FullRune_append [of p q] assms(3) by auto
    from step(1) have neq: "p @ q \<noteq> []" by simp
    from step(1,3) less.prems(2) have ne': "dst' \<noteq> []" by (cases p; cases dst) auto
    have len: "length (tl dst) \<le> length (tl dst') \<or> length (drop ?n p) + length q \<le> length (tl dst')"
      using less.prems(2) n step(3) ne' by (cases dst; cases dst') auto
    have dr: "drop ?n (p @ q) = drop ?n p @ q"
      using n by simp
    have d1: "drop d1 (tl dst') = drop (Suc d1) dst'"
      by (simp add: drop_Suc)
    have d2: "drop s1 (drop ?n p) = drop (?n + s1) p"
      by (simp add: add.commute)
    show ?thesis
      unfolding simpleEncoder_Transform_step [OF neq fq ne'] dq dr
        less.hyps [OF l r len] d1 d2 eq
      by (simp split: prod.splits)
  qed
qed

text \<open>
  Claim C6. When the source before some bytes has been encoded and those bytes do not
  start with a complete rune while \<^verbatim>\<open>atEOF\<close> is false, the encoding \<^verbatim>\<open>Transform\<close>
  returns the short source error with the counts and the bytes written as they were
  before those bytes. When the destination is full and the bytes that follow start with a
  complete rune (or \<^verbatim>\<open>atEOF\<close> is true), it returns the short destination error, again
  with the counts as they were: the rune is not consumed.
\<close>

theorem simpleEncoder_short_buffers:
  "(simpleEncoder_Transform mcr m dst p False = (out, nDst, nSrc, None)
      \<and> q \<noteq> [] \<and> \<not> FullRune q
    \<longrightarrow> simpleEncoder_Transform mcr m dst (p @ q) False = (out, nDst, nSrc, Some ErrShortSrc))
   \<and> (simpleEncoder_Transform mcr m dst p False = (out, nDst, nSrc, None)
        \<and> nDst = length dst \<and> q \<noteq> [] \<and> (FullRune q \<or> atEOF)
      \<longrightarrow> simpleEncoder_Transform mcr m dst (p @ q) atEOF = (out, nDst, nSrc, Some ErrShortDst))"
proof (intro conjI impI; elim conjE)
  assume r: "simpleEncoder_Transform mcr m dst p False = (out, nDst, nSrc, None)"
    and q: "q \<noteq> []" "\<not> FullRune q"
  from simpleEncoder_Transform_bounds [OF r] have s: "nSrc = length p" by simp
  show "simpleEncoder_Transform mcr m dst (p @ q) False = (out, nDst, nSrc, Some ErrShortSrc)"
    using simpleEncoder_Transform_resume [OF r, of dst q False] q
    by (simp add: s simpleEncoder_Transform_stop)
next
  assume r: "simpleEncoder_Transform mcr m dst p False = (out, nDst, nSrc, None)"
    and d: "nDst = length dst" and q: "q \<noteq> []" "FullRune q \<or> atEOF"
  from simpleEncoder_Transform_bounds [OF r] have s: "nSrc = length p" by simp
  show "simpleEncoder_Transform mcr m dst (p @ q) atEOF = (out, nDst, nSrc, Some ErrShortDst)"
    using simpleEncoder_Transform_resume [OF r, of dst q atEOF] q
    by (simp add: s d simpleEncoder_Transform_stop)
qed

theorem simpleEncoder_short_buffers_witness:
  "simpleEncoder_Transform 0xFFFD [(0xC4, 0x80), (0xFFFD, 0x3F)] [0] [0xC3, 0x84] False
     = ([0x80], 1, 2, None)
   \<and> [0xC3 :: byte] \<noteq> [] \<and> \<not> FullRune [0xC3]
   \<and> simpleEncoder_Transform 0xFFFD [(0xC4, 0x80), (0xFFFD, 0x3F)] [0] ([0xC3, 0x84] @ [0xC3]) False
       = ([0x80], 1, 2, Some ErrShortSrc)
   \<and> 1 = length [0 :: byte] \<and> [0xC3 :: byte, 0x85] \<noteq> [] \<and> (FullRune [0xC3, 0x85] \<or> False)
   \<and> simpleEncoder_Transform 0xFFFD [(0xC4, 0x80), (0xFFFD, 0x3F)] [0] ([0xC3, 0x84] @ [0xC3, 0x85]) False
       = ([0x80], 1, 2, Some ErrShortDst)"
proof -
  have h1: "simpleEncoder_Transform 0xFFFD [(0xC4, 0x80), (0xFFFD, 0x3F)] [0] [0xC3, 0x84] False
     = ([0x80], 1, 2, None)"
    by code_simp
  have h2: "\<not> FullRune [0xC3]" and h3: "FullRune [0xC3, 0x85]"
    by code_simp+
  from h1 h2 h3
    simpleEncoder_short_buffers [where mcr = "0xFFFD" and m = "[(0xC4, 0x80), (0xFFFD, 0x3F)]"
      and dst = "[0]" and p = "[0xC3, 0x84]" and q = "[0xC3]" and out = "[0x80]" and nDst = 1
      and nSrc = 2 and atEOF = False]
    simpleEncoder_short_buffers [where mcr = "0xFFFD" and m = "[(0xC4, 0x80), (0xFFFD, 0x3F)]"
      and dst = "[0]" and p = "[0xC3, 0x84]" and q = "[0xC3, 0x85]" and out = "[0x80]" and nDst = 1
      and nSrc = 2 and atEOF = False]
  show ?thesis
    by simp
qed

text \<open>
  Claim C7. When the source before some bytes has been encoded, the destination has room
  and the bytes start with a complete rune (or \<^verbatim>\<open>atEOF\<close> is true), the step consumes the
  bytes of one rune and writes exactly one byte. \<^verbatim>\<open>utf8.DecodeRune\<close> answers bytes that
  are not valid UTF-8 with \<^verbatim>\<open>RuneError\<close> and width one, no error is raised, and the loop
  takes \<^verbatim>\<open>MissingCodeRune\<close> for it. The byte written is the code of the rune in the
  encode map; without one it is the code of \<^verbatim>\<open>MissingCodeRune\<close> in the map; without that
  it is the zero byte.
\<close>

theorem simpleEncoder_step_output:
  assumes "simpleEncoder_Transform mcr m dst p False = (out, nDst, nSrc, None)"
    and "nDst < length dst" and "q \<noteq> []" and "FullRune q \<or> atEOF"
  shows "simpleEncoder_Transform mcr m dst (p @ q) atEOF =
     (case DecodeRune q of
        (r0, n) \<Rightarrow>
          let r = (if r0 = RuneError then mcr else r0);
              b = (case map_of m r of
                     Some b \<Rightarrow> b
                   | None \<Rightarrow> (case map_of m mcr of Some b \<Rightarrow> b | None \<Rightarrow> 0))
          in (case simpleEncoder_Transform mcr m (drop (nDst + 1) dst) (drop n q) atEOF of
                (w2, d2, s2, err2) \<Rightarrow> (out @ b # w2, nDst + 1 + d2, nSrc + n + s2, err2)))"
proof -
  from simpleEncoder_Transform_bounds [OF assms(1)] have s: "nSrc = length p" by simp
  from assms(2) have ne: "drop nDst dst \<noteq> []" by simp
  have t: "tl (drop nDst dst) = drop (nDst + 1) dst"
    by (simp add: drop_Suc tl_drop)
  show ?thesis
    using simpleEncoder_Transform_resume [OF assms(1), of dst q atEOF]
    by (simp add: s simpleEncoder_Transform_step [OF assms(3,4) ne] t encoded_byte_def Let_def
        split: prod.splits)
qed

theorem simpleEncoder_step_output_witness:
  "simpleEncoder_Transform 0xFFFD [(0xC4, 0x80), (0xFFFD, 0x3F)] [0, 0, 0] [0xC3, 0x84] False
     = ([0x80], 1, 2, None)
   \<and> 1 < length [0 :: byte, 0, 0] \<and> [0xFF :: byte] \<noteq> [] \<and> (FullRune [0xFF] \<or> True)
   \<and> DecodeRune [0xFF] = (RuneError, 1)
   \<and> simpleEncoder_Transform 0xFFFD [(0xC4, 0x80), (0xFFFD, 0x3F)] [0, 0, 0] ([0xC3, 0x84] @ [0xFF]) True
       = ([0x80, 0x3F], 2, 3, None)"
proof -
  have h1: "simpleEncoder_Transform 0xFFFD [(0xC4, 0x80), (0xFFFD, 0x3F)] [0, 0, 0] [0xC3, 0x84] False
     = ([0x80], 1, 2, None)"
    by code_simp
  have h2: "DecodeRune [0xFF] = (RuneError, 1)"
    by code_simp
  have h3: "simpleEncoder_Transform 0xFFFD [(0xC4, 0x80), (0xFFFD, 0x3F)] [0] [] True = ([], 0, 0, None)"
    by code_simp
  from simpleEncoder_step_output [OF h1, of "[0xFF]" True] h1 h2 h3
  show ?thesis
    by (simp add: RuneError_def)
qed


section \<open>Feeding a buffer in chunks\<close>

subsection \<open>Decoding\<close>

lemma decoded_text_simps:
  "decoded_text mcr m [] = []"
  "decoded_text mcr m (b # src) = encodeRuneBytes (decoded_rune mcr m b) @ decoded_text mcr m src"
  "decoded_text mcr m (xs @ ys) = decoded_text mcr m xs @ decoded_text mcr m ys"
  by (simp_all add: decoded_text_def)

lemma ValidRune_decoded_rune:
  assumes "ValidRune mcr" and "\<forall>(b, r) \<in> set m. ValidRune r"
  shows "ValidRune (decoded_rune mcr m b)"
proof (cases "map_of m b")
  case None
  with assms(1) show ?thesis by (simp add: decoded_rune_def)
next
  case (Some r)
  then have "(b, r) \<in> set m" by (rule map_of_SomeD)
  with assms(2) Some show ?thesis by (auto simp: decoded_rune_def)
qed

lemma simpleDecoder_loop_whole:
  "4 * length src \<le> length dst
     \<Longrightarrow> simpleDecoder_loop mcr m dst src out nDst nSrc
         = Inr (out @ decoded_text mcr m src, nDst + length (decoded_text mcr m src),
                nSrc + length src, None)"
proof (induction src arbitrary: dst out nDst nSrc)
  case Nil
  then show ?case by (simp add: decoded_text_simps)
next
  case (Cons b src)
  let ?bs = "encodeRuneBytes (decoded_rune mcr m b)"
  from encodeRuneBytes_length [of "decoded_rune mcr m b"] RuneLen_le [of "decoded_rune mcr m b"]
  have l: "length ?bs \<le> 4" "RuneLen (decoded_rune mcr m b) \<le> 4" by simp_all
  with Cons.prems have ok: "\<not> RuneLen (decoded_rune mcr m b) > int (length dst)"
      "\<not> length dst < length ?bs" by simp_all
  from Cons.prems l have "4 * length src \<le> length (drop (length ?bs) dst)" by simp
  from Cons.IH [OF this] ok show ?case
    by (simp add: simpleDecoder_loop_Cons decoded_text_simps del: simpleDecoder_loop.simps)
qed

lemma simpleDecoder_loop_prefix:
  assumes v: "\<And>b. ValidRune (decoded_rune mcr m b)"
  shows "\<exists>s err. simpleDecoder_loop mcr m dst src out nDst nSrc
           = Inr (out @ decoded_text mcr m (take s src),
                  nDst + length (decoded_text mcr m (take s src)), nSrc + s, err)
         \<and> s \<le> length src
         \<and> ((err = None \<and> s = length src)
            \<or> (err = Some ErrShortDst \<and> s < length src \<and> (4 \<le> length dst \<longrightarrow> 0 < s)))"
proof (induction src arbitrary: dst out nDst nSrc)
  case Nil
  show ?case by (simp add: decoded_text_simps)
next
  case (Cons b src)
  let ?bs = "encodeRuneBytes (decoded_rune mcr m b)"
  have rl: "RuneLen (decoded_rune mcr m b) = int (length ?bs)"
    by (rule RuneLen_ValidRune [OF v])
  have l4: "length ?bs \<le> 4"
    using encodeRuneBytes_length [of "decoded_rune mcr m b"] by simp
  show ?case
  proof (cases "length dst < length ?bs")
    case True
    then have "simpleDecoder_loop mcr m dst (b # src) out nDst nSrc
        = Inr (out @ decoded_text mcr m (take 0 (b # src)),
               nDst + length (decoded_text mcr m (take 0 (b # src))), nSrc + 0, Some ErrShortDst)"
      by (simp add: simpleDecoder_loop_Cons rl decoded_text_simps del: simpleDecoder_loop.simps)
    moreover have "\<not> 4 \<le> length dst" using True l4 by simp
    ultimately show ?thesis by (intro exI [of _ 0] exI [of _ "Some ErrShortDst"]) simp
  next
    case False
    from Cons.IH [of "drop (length ?bs) dst" "out @ ?bs" "nDst + length ?bs" "nSrc + 1"]
    obtain s err where s: "simpleDecoder_loop mcr m (drop (length ?bs) dst) src (out @ ?bs)
           (nDst + length ?bs) (nSrc + 1)
           = Inr ((out @ ?bs) @ decoded_text mcr m (take s src),
                  (nDst + length ?bs) + length (decoded_text mcr m (take s src)), (nSrc + 1) + s, err)"
      and b: "s \<le> length src" "(err = None \<and> s = length src) \<or> (err = Some ErrShortDst \<and> s < length src)"
      by blast
    have "simpleDecoder_loop mcr m dst (b # src) out nDst nSrc
        = Inr (out @ decoded_text mcr m (take (Suc s) (b # src)),
               nDst + length (decoded_text mcr m (take (Suc s) (b # src))), nSrc + Suc s, err)"
      using False s by (simp add: simpleDecoder_loop_Cons rl decoded_text_simps del: simpleDecoder_loop.simps)
    with b show ?thesis
      by (intro exI [of _ "Suc s"] exI [of _ err]) auto
  qed
qed

lemma resume_short_dst_decoder:
  assumes v: "\<And>b. ValidRune (decoded_rune mcr m b)" and k: "4 \<le> k"
  shows "resume_short_dst (decoder_of mcr m) k src e
           = Inr (decoded_text mcr m src, length src, None)"
proof (induction "length src" arbitrary: src rule: less_induct)
  case less
  from simpleDecoder_loop_prefix [OF v, of "replicate k 0" src "[]" 0 0]
  obtain s err where s: "simpleDecoder_Transform mcr m (replicate k 0) src e
           = Inr (decoded_text mcr m (take s src), length (decoded_text mcr m (take s src)), s, err)"
    and b: "s \<le> length src"
      "(err = None \<and> s = length src) \<or> (err = Some ErrShortDst \<and> s < length src \<and> 0 < s)"
    using k by (auto simp: simpleDecoder_Transform_def)
  from b(2) show ?case
  proof
    assume "err = None \<and> s = length src"
    then show ?thesis
      by (subst resume_short_dst.simps) (simp add: decoder_of_def s)
  next
    assume a: "err = Some ErrShortDst \<and> s < length src \<and> 0 < s"
    then have "length (drop s src) < length src" by auto
    from less [OF this] have "resume_short_dst (decoder_of mcr m) k (drop s src) e
        = Inr (decoded_text mcr m (drop s src), length src - s, None)"
      by simp
    moreover have "decoded_text mcr m (take s src) @ decoded_text mcr m (drop s src)
        = decoded_text mcr m src"
      by (simp add: decoded_text_simps(3) [symmetric])
    ultimately show ?thesis
      using a by (subst resume_short_dst.simps) (simp add: decoder_of_def s)
  qed
qed

lemma feed_chunks_decoder:
  assumes v: "\<And>b. ValidRune (decoded_rune mcr m b)" and k: "4 \<le> k"
  shows "feed_chunks (decoder_of mcr m) k pending cs
           = Inr (decoded_text mcr m (pending @ concat cs), length (pending @ concat cs), None)"
proof (induction cs arbitrary: pending)
  case Nil
  show ?case by (simp add: resume_short_dst_decoder [OF v k])
next
  case (Cons c cs)
  show ?case
    by (simp add: resume_short_dst_decoder [OF v k] Cons.IH [of "[]"] decoded_text_simps)
qed

subsection \<open>Encoding\<close>

lemma encoder_of_apply:
  "encoder_of mcr m dst src atEOF = Inr (simpleEncoder_Transform mcr m dst src atEOF)"
  by (simp add: encoder_of_def)

lemma resume_short_dst_encoder:
  assumes k: "0 < k"
  shows "\<exists>w s err. resume_short_dst (encoder_of mcr m) k src e = Inr (w, s, err)
         \<and> err \<noteq> Some ErrShortDst \<and> length w \<le> s \<and> s \<le> length src
         \<and> (err = None \<longrightarrow> s = length src)
         \<and> (err = Some ErrShortSrc \<longrightarrow> \<not> e)
         \<and> (\<forall>dst' q e2. length src + length q \<le> length dst' \<and> (e \<longrightarrow> q = [] \<and> e2) \<longrightarrow>
               simpleEncoder_Transform mcr m dst' (src @ q) e2 =
                 (case simpleEncoder_Transform mcr m (drop (length w) dst') (drop s src @ q) e2 of
                    (w2, d2, s2, err2) \<Rightarrow> (w @ w2, length w + d2, s + s2, err2)))"
proof (induction "length src" arbitrary: src rule: less_induct)
  case less
  obtain w1 d1 s1 err1 where
    r: "simpleEncoder_Transform mcr m (replicate k 0) src e = (w1, d1, s1, err1)"
    by (cases "simpleEncoder_Transform mcr m (replicate k 0) src e") auto
  from simpleEncoder_Transform_bounds [OF r]
  have b: "d1 = length w1" "d1 \<le> k" "d1 \<le> s1" "s1 \<le> length src"
      "err1 = None \<longrightarrow> s1 = length src" "err1 = Some ErrShortSrc \<longrightarrow> \<not> e"
      "err1 = Some ErrShortDst \<longrightarrow> d1 = k"
    by auto
  have res: "simpleEncoder_Transform mcr m dst' (src @ q) e2 =
      (case simpleEncoder_Transform mcr m (drop d1 dst') (drop s1 src @ q) e2 of
         (w2, d2, s2, err2) \<Rightarrow> (w1 @ w2, d1 + d2, s1 + s2, err2))"
    if "length src + length q \<le> length dst'" "e \<longrightarrow> q = [] \<and> e2" for dst' q e2
    using simpleEncoder_Transform_resume [OF r, of dst' q e2] that by simp
  show ?case
  proof (cases "err1 = Some ErrShortDst")
    case False
    then have "resume_short_dst (encoder_of mcr m) k src e = Inr (w1, s1, err1)"
      by (subst resume_short_dst.simps) (simp add: encoder_of_apply r)
    with False b res show ?thesis
      by (intro exI [of _ w1] exI [of _ s1] exI [of _ err1]) (simp add: b(1) [symmetric])
  next
    case True
    with b(3) b(7) k have pos: "0 < s1" by arith
    with b(4) have l: "length (drop s1 src) < length src" by auto
    from less [OF l] obtain w' s' err' where
      r': "resume_short_dst (encoder_of mcr m) k (drop s1 src) e = Inr (w', s', err')"
      and b': "err' \<noteq> Some ErrShortDst" "length w' \<le> s'" "s' \<le> length (drop s1 src)"
        "err' = None \<longrightarrow> s' = length (drop s1 src)" "err' = Some ErrShortSrc \<longrightarrow> \<not> e"
      and res': "\<And>dst' q e2. length (drop s1 src) + length q \<le> length dst' \<Longrightarrow> (e \<longrightarrow> q = [] \<and> e2) \<Longrightarrow>
               simpleEncoder_Transform mcr m dst' (drop s1 src @ q) e2 =
                 (case simpleEncoder_Transform mcr m (drop (length w') dst') (drop s' (drop s1 src) @ q) e2 of
                    (w2, d2, s2, err2) \<Rightarrow> (w' @ w2, length w' + d2, s' + s2, err2))"
      by blast
    have eq: "resume_short_dst (encoder_of mcr m) k src e = Inr (w1 @ w', s1 + s', err')"
      using True pos b(4) by (subst resume_short_dst.simps) (simp add: encoder_of_apply r r')
    have comb: "simpleEncoder_Transform mcr m dst' (src @ q) e2 =
        (case simpleEncoder_Transform mcr m (drop (length (w1 @ w')) dst') (drop (s1 + s') src @ q) e2 of
           (w2, d2, s2, err2) \<Rightarrow> ((w1 @ w') @ w2, length (w1 @ w') + d2, (s1 + s') + s2, err2))"
      if h: "length src + length q \<le> length dst'" "e \<longrightarrow> q = [] \<and> e2" for dst' q e2
    proof -
      from h(1) b have "length (drop s1 src) + length q \<le> length (drop d1 dst')" by simp
      from res' [OF this h(2)] have "simpleEncoder_Transform mcr m (drop d1 dst') (drop s1 src @ q) e2 =
          (case simpleEncoder_Transform mcr m (drop (length (w1 @ w')) dst') (drop (s1 + s') src @ q) e2 of
             (w2, d2, s2, err2) \<Rightarrow> (w' @ w2, length w' + d2, s' + s2, err2))"
        by (simp add: b(1) add.commute)
      with res [OF h] show ?thesis
        by (simp add: b(1) split: prod.splits)
    qed
    from b b' have "length (w1 @ w') \<le> s1 + s'" "s1 + s' \<le> length src"
        "err' = None \<longrightarrow> s1 + s' = length src"
      by auto
    with eq b' comb show ?thesis
      by (intro exI [of _ "w1 @ w'"] exI [of _ "s1 + s'"] exI [of _ err']) blast
  qed
qed

lemma feed_chunks_encoder:
  assumes k: "0 < k"
  shows "\<exists>w. feed_chunks (encoder_of mcr m) k pending cs
             = Inr (w, length (pending @ concat cs), None)
         \<and> (\<forall>dst'. length (pending @ concat cs) \<le> length dst' \<longrightarrow>
               simpleEncoder_Transform mcr m dst' (pending @ concat cs) True
                 = (w, length w, length (pending @ concat cs), None))"
proof (induction cs arbitrary: pending)
  case Nil
  from resume_short_dst_encoder [OF k, of mcr m pending True] obtain w s err where
    r: "resume_short_dst (encoder_of mcr m) k pending True = Inr (w, s, err)"
    and b: "err \<noteq> Some ErrShortDst" "err = None \<longrightarrow> s = length pending" "err \<noteq> Some ErrShortSrc"
    and res: "\<And>dst'. length pending \<le> length dst' \<Longrightarrow>
               simpleEncoder_Transform mcr m dst' pending True =
                 (case simpleEncoder_Transform mcr m (drop (length w) dst') (drop s pending) True of
                    (w2, d2, s2, err2) \<Rightarrow> (w @ w2, length w + d2, s + s2, err2))"
    by (fastforce simp: all_conj_distrib)
  from b have e: "err = None" by (cases err) (auto intro: transform_error.exhaust)
  with b have s: "s = length pending" by simp
  show ?case
    using r res by (simp add: e s simpleEncoder_Transform_stop)
next
  case (Cons c cs)
  from resume_short_dst_encoder [OF k, of mcr m "pending @ c" False] obtain w1 s1 err1 where
    r: "resume_short_dst (encoder_of mcr m) k (pending @ c) False = Inr (w1, s1, err1)"
    and b: "err1 \<noteq> Some ErrShortDst" "length w1 \<le> s1" "s1 \<le> length (pending @ c)"
    and res: "\<And>dst' q e2. length (pending @ c) + length q \<le> length dst' \<Longrightarrow>
               simpleEncoder_Transform mcr m dst' ((pending @ c) @ q) e2 =
                 (case simpleEncoder_Transform mcr m (drop (length w1) dst') (drop s1 (pending @ c) @ q) e2 of
                    (w2, d2, s2, err2) \<Rightarrow> (w1 @ w2, length w1 + d2, s1 + s2, err2))"
    by (fastforce simp: all_conj_distrib)
  let ?rest = "drop s1 (pending @ c)"
  from Cons.IH [of ?rest] obtain w2 where
    f: "feed_chunks (encoder_of mcr m) k ?rest cs = Inr (w2, length (?rest @ concat cs), None)"
    and t: "\<And>dst'. length (?rest @ concat cs) \<le> length dst' \<Longrightarrow>
               simpleEncoder_Transform mcr m dst' (?rest @ concat cs) True
                 = (w2, length w2, length (?rest @ concat cs), None)"
    by blast
  have 1: "feed_chunks (encoder_of mcr m) k pending (c # cs)
      = Inr (w1 @ w2, length (pending @ concat (c # cs)), None)"
    using r b f by simp
  have 2: "simpleEncoder_Transform mcr m dst' (pending @ concat (c # cs)) True
      = (w1 @ w2, length (w1 @ w2), length (pending @ concat (c # cs)), None)"
    if h: "length (pending @ concat (c # cs)) \<le> length dst'" for dst'
  proof -
    from h have "length (pending @ c) + length (concat cs) \<le> length dst'" by simp
    from res [OF this, of True]
    have "simpleEncoder_Transform mcr m dst' (pending @ concat (c # cs)) True =
        (case simpleEncoder_Transform mcr m (drop (length w1) dst') (?rest @ concat cs) True of
           (w2, d2, s2, err2) \<Rightarrow> (w1 @ w2, length w1 + d2, s1 + s2, err2))"
      by simp
    moreover from h b have "length (?rest @ concat cs) \<le> length (drop (length w1) dst')"
      by simp
    ultimately show ?thesis
      using t [of "drop (length w1) dst'"] b by simp
  qed
  from 1 2 show ?case by blast
qed

text \<open>
  Chunking invariance where the runes are Unicode scalar values. Let a buffer be cut into
  chunks at any places, and let a caller feed the chunks under the protocol, every call
  writing into a destination of \<open>k\<close> bytes: it calls again after a short destination,
  carries the bytes not consumed over to the next chunk, and sets \<^verbatim>\<open>atEOF\<close> on the last
  call. The bytes written and the number of bytes consumed by all the calls together are
  those of a single call of \<^verbatim>\<open>Transform\<close> on the whole buffer with room for all its
  output. For decoding, \<open>k\<close> is at least \<^verbatim>\<open>utf8.UTFMax\<close>, the room of one rune, and
  the runes of the map and \<^verbatim>\<open>MissingCodeRune\<close> are Unicode scalar values; for
  encoding, which holds for every map, \<open>k\<close> is at least one.
\<close>

theorem chunking_invariance:
  "(4 \<le> k \<and> ValidRune mcr \<and> (\<forall>(b, r) \<in> set dm. ValidRune r)
      \<and> 4 * length (concat cs) \<le> length dst
    \<longrightarrow> (\<exists>w. simpleDecoder_Transform mcr dm dst (concat cs) True
                 = Inr (w, length w, length (concat cs), None)
              \<and> feed_chunks (decoder_of mcr dm) k [] cs = Inr (w, length (concat cs), None)))
   \<and> (0 < k \<and> length (concat cs) \<le> length dst
      \<longrightarrow> (\<exists>w. simpleEncoder_Transform mcr em dst (concat cs) True
                   = (w, length w, length (concat cs), None)
                \<and> feed_chunks (encoder_of mcr em) k [] cs = Inr (w, length (concat cs), None)))"
proof (intro conjI impI; elim conjE)
  assume k: "4 \<le> k" and v: "ValidRune mcr" "\<forall>(b, r) \<in> set dm. ValidRune r"
    and l: "4 * length (concat cs) \<le> length dst"
  have "simpleDecoder_Transform mcr dm dst (concat cs) True
      = Inr (decoded_text mcr dm (concat cs), length (decoded_text mcr dm (concat cs)),
             length (concat cs), None)"
    using simpleDecoder_loop_whole [OF l, of mcr dm "[]" 0 0]
    by (simp add: simpleDecoder_Transform_def)
  moreover have "feed_chunks (decoder_of mcr dm) k [] cs
      = Inr (decoded_text mcr dm (concat cs), length (concat cs), None)"
    using feed_chunks_decoder [OF ValidRune_decoded_rune [OF v] k, of "[]" cs] by simp
  ultimately show "\<exists>w. simpleDecoder_Transform mcr dm dst (concat cs) True
                 = Inr (w, length w, length (concat cs), None)
              \<and> feed_chunks (decoder_of mcr dm) k [] cs = Inr (w, length (concat cs), None)"
    by blast
next
  assume k: "0 < k" and l: "length (concat cs) \<le> length dst"
  from feed_chunks_encoder [OF k, of mcr em "[]" cs] l
  show "\<exists>w. simpleEncoder_Transform mcr em dst (concat cs) True
                   = (w, length w, length (concat cs), None)
                \<and> feed_chunks (encoder_of mcr em) k [] cs = Inr (w, length (concat cs), None)"
    by auto
qed

theorem chunking_invariance_witness:
  "(4 :: nat) \<le> 4 \<and> ValidRune 0xFFFD \<and> ValidRune 0xC4 \<and> ValidRune 0xC5
   \<and> 4 * length (concat [[0x80 :: byte], [0x81, 0x41]]) \<le> length (replicate 12 (0 :: byte))
   \<and> simpleDecoder_Transform 0xFFFD [(0x80, 0xC4), (0x81, 0xC5)] (replicate 12 0)
        (concat [[0x80], [0x81, 0x41]]) True
      = Inr ([0xC3, 0x84, 0xC3, 0x85, 0xEF, 0xBF, 0xBD], 7, 3, None)
   \<and> feed_chunks (decoder_of 0xFFFD [(0x80, 0xC4), (0x81, 0xC5)]) 4 [] [[0x80], [0x81, 0x41]]
      = Inr ([0xC3, 0x84, 0xC3, 0x85, 0xEF, 0xBF, 0xBD], 3, None)
   \<and> (0 :: nat) < 1
   \<and> length (concat [[0xC3 :: byte], [0x84, 0xC3, 0x85, 0xFF]]) \<le> length (replicate 5 (0 :: byte))
   \<and> simpleEncoder_Transform 0xFFFD [(0xC4, 0x80), (0xC5, 0x81)] (replicate 5 0)
        (concat [[0xC3], [0x84, 0xC3, 0x85, 0xFF]]) True
      = ([0x80, 0x81, 0x00], 3, 5, None)
   \<and> feed_chunks (encoder_of 0xFFFD [(0xC4, 0x80), (0xC5, 0x81)]) 1 [] [[0xC3], [0x84, 0xC3, 0x85, 0xFF]]
      = Inr ([0x80, 0x81, 0x00], 5, None)"
proof -
  have v: "ValidRune 0xFFFD" "\<forall>(b, r) \<in> set [(0x80 :: byte, 0xC4), (0x81, 0xC5)]. ValidRune r"
    by (simp_all add: ValidRune_def)
  have d: "simpleDecoder_Transform 0xFFFD [(0x80, 0xC4), (0x81, 0xC5)] (replicate 12 0)
        (concat [[0x80], [0x81, 0x41]]) True
      = Inr ([0xC3, 0x84, 0xC3, 0x85, 0xEF, 0xBF, 0xBD], 7, 3, None)"
    by code_simp
  have e: "simpleEncoder_Transform 0xFFFD [(0xC4, 0x80), (0xC5, 0x81)] (replicate 5 0)
        (concat [[0xC3], [0x84, 0xC3, 0x85, 0xFF]]) True
      = ([0x80, 0x81, 0x00], 3, 5, None)"
    by code_simp
  have ld: "4 * length (concat [[0x80 :: byte], [0x81, 0x41]]) \<le> length (replicate 12 (0 :: byte))"
    and le: "length (concat [[0xC3 :: byte], [0x84, 0xC3, 0x85, 0xFF]]) \<le> length (replicate 5 (0 :: byte))"
    by simp_all
  from chunking_invariance [where k = 4 and mcr = "0xFFFD" and dm = "[(0x80, 0xC4), (0x81, 0xC5)]"
      and cs = "[[0x80], [0x81, 0x41]]" and dst = "replicate 12 0"] v ld d
  have fd: "feed_chunks (decoder_of 0xFFFD [(0x80, 0xC4), (0x81, 0xC5)]) 4 [] [[0x80], [0x81, 0x41]]
      = Inr ([0xC3, 0x84, 0xC3, 0x85, 0xEF, 0xBF, 0xBD], 3, None)"
    by auto
  from chunking_invariance [where k = 1 and mcr = "0xFFFD" and em = "[(0xC4, 0x80), (0xC5, 0x81)]"
      and cs = "[[0xC3], [0x84, 0xC3, 0x85, 0xFF]]" and dst = "replicate 5 0"] le e
  have fe: "feed_chunks (encoder_of 0xFFFD [(0xC4, 0x80), (0xC5, 0x81)]) 1 [] [[0xC3], [0x84, 0xC3, 0x85, 0xFF]]
      = Inr ([0x80, 0x81, 0x00], 5, None)"
    by auto
  from v ld le d e fd fe show ?thesis
    by simp
qed


text \<open>
  Claim C3. Decoding a buffer in one call and decoding it under the protocol give the
  same bytes and the same count. The decoding \<^verbatim>\<open>Transform\<close> breaks this for a map that
  holds a rune which is no Unicode scalar value, here the surrogate U+D800 under the code
  0x41. One call on 0x00 0x41 with six bytes of room writes the encoding of
  \<^verbatim>\<open>RuneError\<close> twice and consumes both bytes. With four bytes of room the first rune
  takes three; for the second \<^verbatim>\<open>utf8.RuneLen\<close> is \<open>-1\<close>, so the test of the loop
  does not report a short destination, and \<^verbatim>\<open>utf8.EncodeRune\<close> panics on the one byte
  left: the call, and with it the caller of the protocol, ends in a panic.
\<close>

theorem decoder_chunks_surrogate_panic:
  "simpleDecoder_Transform 0xFFFD [(0x41, 0xD800)] (replicate 6 0) (concat [[0x00, 0x41]]) True
     = Inr ([0xEF, 0xBF, 0xBD, 0xEF, 0xBF, 0xBD], 6, 2, None)
   \<and> simpleDecoder_Transform 0xFFFD [(0x41, 0xD800)] (replicate 4 0) [0x00, 0x41] False
       = Inl IndexOutOfRange
   \<and> feed_chunks (decoder_of 0xFFFD [(0x41, 0xD800)]) 4 [] [[0x00, 0x41]] = Inl IndexOutOfRange"
  by code_simp

end
